theory Spec2Isabelle
  imports Complex_Main "HOL-Library.Char_ord" "HOL-Library.List_Lexorder"
begin

section \<open>Calendar dates\<close>

text \<open>
  The accounting code of \<^verbatim>\<open>src/lib/database.py\<close> works on Python \<^verbatim>\<open>datetime.date\<close>
  values and on the ISO text SQLite keeps in the \<^verbatim>\<open>opened_at\<close> column. A date is the
  triple of its attributes; the functions below are those of the proleptic Gregorian
  calendar of the \<^verbatim>\<open>datetime\<close> and \<^verbatim>\<open>calendar\<close> modules, which the source calls.
\<close>

record date =
  year :: int
  month :: int
  day :: int

datatype py_error = OverflowError | ValueError

definition isleap :: "int \<Rightarrow> bool" where
  "isleap y \<longleftrightarrow> y mod 4 = 0 \<and> (y mod 100 \<noteq> 0 \<or> y mod 400 = 0)"

definition days_before_year :: "int \<Rightarrow> int" where
  "days_before_year y = (y - 1) * 365 + (y - 1) div 4 - (y - 1) div 100 + (y - 1) div 400"

definition DAYS_IN_MONTH :: "int \<Rightarrow> int" where
  "DAYS_IN_MONTH m =
     (if m = 2 then 28
      else if m = 4 \<or> m = 6 \<or> m = 9 \<or> m = 11 then 30
      else 31)"

definition DAYS_BEFORE_MONTH :: "int \<Rightarrow> int" where
  "DAYS_BEFORE_MONTH m =
     (if m \<le> 1 then 0 else if m = 2 then 31 else if m = 3 then 59
      else if m = 4 then 90 else if m = 5 then 120 else if m = 6 then 151
      else if m = 7 then 181 else if m = 8 then 212 else if m = 9 then 243
      else if m = 10 then 273 else if m = 11 then 304 else 334)"

definition days_in_month :: "int \<Rightarrow> int \<Rightarrow> int" where
  "days_in_month y m = (if m = 2 \<and> isleap y then 29 else DAYS_IN_MONTH m)"

definition days_before_month :: "int \<Rightarrow> int \<Rightarrow> int" where
  "days_before_month y m = DAYS_BEFORE_MONTH m + (if m > 2 \<and> isleap y then 1 else 0)"

definition valid_date :: "date \<Rightarrow> bool" where
  "valid_date d \<longleftrightarrow>
     1 \<le> year d \<and> year d \<le> 9999 \<and> 1 \<le> month d \<and> month d \<le> 12 \<and>
     1 \<le> day d \<and> day d \<le> days_in_month (year d) (month d)"

definition toordinal :: "date \<Rightarrow> int" where
  "toordinal d = days_before_year (year d) + days_before_month (year d) (month d) + day d"

text \<open>
  \<^verbatim>\<open>_ord2ymd\<close> of the \<^verbatim>\<open>datetime\<close> module, the inverse of \<^const>\<open>toordinal\<close>. Its
  last part, which finds the month and the day from the zero-based day of the year, is
  \<open>ord2md\<close>.
\<close>

definition ord2md :: "bool \<Rightarrow> int \<Rightarrow> int \<times> int" where
  "ord2md leapyear n =
     (let m = (n + 50) div 32;
          preceding = DAYS_BEFORE_MONTH m + (if m > 2 \<and> leapyear then 1 else 0)
      in if preceding > n
         then (m - 1, n - (preceding - (DAYS_IN_MONTH (m - 1)
                              + (if m - 1 = 2 \<and> leapyear then 1 else 0))) + 1)
         else (m, n - preceding + 1))"

definition fromordinal :: "int \<Rightarrow> date" where
  "fromordinal n0 =
     (let n = n0 - 1;
          n400 = n div 146097; n = n mod 146097;
          n100 = n div 36524; n = n mod 36524;
          n4 = n div 1461; n = n mod 1461;
          n1 = n div 365; n = n mod 365;
          y = n400 * 400 + 1 + n100 * 100 + n4 * 4 + n1
      in if n1 = 4 \<or> n100 = 4 then \<lparr>year = y - 1, month = 12, day = 31\<rparr>
         else
           let leapyear = (n1 = 3 \<and> (n4 \<noteq> 24 \<or> n100 = 3));
               (m, d) = ord2md leapyear n
           in \<lparr>year = y, month = m, day = d\<rparr>)"

text \<open>
  \<^verbatim>\<open>d + timedelta(days=n)\<close>: the date \<open>n\<close> days on, or \<^verbatim>\<open>OverflowError\<close> when it
  leaves the years 1 to 9999 (ordinals 1 to 3652059).
\<close>

definition date_add_days :: "date \<Rightarrow> int \<Rightarrow> py_error + date" where
  "date_add_days d n =
     (let o' = toordinal d + n
      in if 0 < o' \<and> o' \<le> 3652059 then Inr (fromordinal o') else Inl OverflowError)"

text \<open>\<^verbatim>\<open>(a - b).days\<close> for two dates.\<close>

definition days_between :: "date \<Rightarrow> date \<Rightarrow> int" where
  "days_between a b = toordinal a - toordinal b"

section \<open>Text values\<close>

text \<open>
  SQLite keeps \<^verbatim>\<open>opened_at\<close> as text and the queries compare text with text: the result of
  \<^verbatim>\<open>date(opened_at)\<close> with \<^verbatim>\<open>current_week_start.isoformat()\<close>, the result of
  \<^verbatim>\<open>strftime('%Y', opened_at)\<close> with \<^verbatim>\<open>str(start_year)\<close>. Text is compared byte by byte
  (the \<^verbatim>\<open>BINARY\<close> collation), which is the lexicographic order of \<^typ>\<open>string\<close>.
  \<open>pad4\<close> and \<open>pad2\<close> are the zero-padded fields \<^verbatim>\<open>%04d\<close> and \<^verbatim>\<open>%02d\<close> for numbers
  that fit the width, which the fields of a valid date do.
\<close>

definition digit_char :: "nat \<Rightarrow> char" where
  "digit_char n = char_of (48 + n)"

definition pad2 :: "int \<Rightarrow> string" where
  "pad2 n = [digit_char (nat (n div 10 mod 10)), digit_char (nat (n mod 10))]"

definition pad4 :: "int \<Rightarrow> string" where
  "pad4 n = [digit_char (nat (n div 1000 mod 10)), digit_char (nat (n div 100 mod 10)),
             digit_char (nat (n div 10 mod 10)), digit_char (nat (n mod 10))]"

text \<open>\<^verbatim>\<open>date.isoformat()\<close>, and the text SQLite's \<^verbatim>\<open>date()\<close> gives: \<^verbatim>\<open>YYYY-MM-DD\<close>.\<close>

definition isoformat :: "date \<Rightarrow> string" where
  "isoformat d = pad4 (year d) @ ''-'' @ pad2 (month d) @ ''-'' @ pad2 (day d)"

text \<open>Python's \<^verbatim>\<open>str\<close> of an integer: decimal digits, no padding.\<close>

fun digits10 :: "nat \<Rightarrow> string" where
  "digits10 n = (if n < 10 then [digit_char n] else digits10 (n div 10) @ [digit_char (n mod 10)])"

declare digits10.simps [simp del]

definition py_str :: "int \<Rightarrow> string" where
  "py_str i = (if i < 0 then CHR ''-'' # digits10 (nat (- i)) else digits10 (nat i))"

text \<open>
  \<^verbatim>\<open>datetime.strptime(s, "%Y-%m-%d").date()\<close> on the text \<^verbatim>\<open>date()\<close> returned: ten
  characters, digits around two hyphens, naming a date that exists; anything else raises
  \<^verbatim>\<open>ValueError\<close>.
\<close>

definition is_digit :: "char \<Rightarrow> bool" where
  "is_digit c \<longleftrightarrow> 48 \<le> (of_char c :: nat) \<and> (of_char c :: nat) \<le> 57"

definition digit_val :: "char \<Rightarrow> int" where
  "digit_val c = int (of_char c) - 48"

definition number_of :: "string \<Rightarrow> int" where
  "number_of s = foldl (\<lambda>acc c. 10 * acc + digit_val c) 0 s"

definition strptime :: "string \<Rightarrow> py_error + date" where
  "strptime s =
     (if length s = 10 \<and> s ! 4 = CHR ''-'' \<and> s ! 7 = CHR ''-''
         \<and> list_all is_digit (take 4 s) \<and> list_all is_digit (take 2 (drop 5 s))
         \<and> list_all is_digit (drop 8 s)
      then let d = \<lparr>year = number_of (take 4 s), month = number_of (take 2 (drop 5 s)),
                    day = number_of (drop 8 s)\<rparr>
           in if valid_date d then Inr d else Inl ValueError
      else Inl ValueError)"

section \<open>The ledger\<close>

text \<open>
  The \<^verbatim>\<open>trades\<close> and \<^verbatim>\<open>positions\<close> tables of \<^verbatim>\<open>_init_schema\<close>. A ledger is the list of
  the rows of \<^verbatim>\<open>trades\<close> in row order. The columns no modelled query reads
  (\<^verbatim>\<open>expiration\<close>, \<^verbatim>\<open>delta\<close>, \<^verbatim>\<open>notes\<close>, \<^verbatim>\<open>closed_at\<close>, the price and the timestamps of a
  position) are
  left out, and \<^verbatim>\<open>opened_at\<close> is the calendar date of the stored timestamp, the only part
  \<^verbatim>\<open>date()\<close> and \<^verbatim>\<open>strftime\<close> with \<^verbatim>\<open>%Y\<close> and \<^verbatim>\<open>%m\<close> read. Money is \<^typ>\<open>real\<close>: each
  amount of the model is the exact value of the expression that SQLite and Python
  evaluate in IEEE doubles. A statement that one aggregate is a given sum over given rows
  carries over to the code, which adds the same terms; a statement that two sums taken in
  different groupings are equal does not, since the addition of doubles is not
  associative.
\<close>

datatype trade_type = CSP | CC | ASSIGNMENT | CLOSE | ROLL | BUY | SELL

datatype trade_status = OPEN | CLOSED | EXPIRED | ASSIGNED

record trade =
  trade_id :: nat
  position_id :: nat
  trade_type :: trade_type
  ticker :: string
  strike :: "real option"
  premium :: real
  quantity :: int
  status :: trade_status
  opened_at :: date

record position =
  pos_id :: nat
  pos_ticker :: string
  shares_owned :: int
  cost_basis :: real

record database =
  positions :: "position list"
  trades :: "trade list"

section \<open>The queries of the premium calculations\<close>

text \<open>\<^verbatim>\<open>premium * quantity * 100\<close>, the term every aggregate sums.\<close>

definition realized :: "trade \<Rightarrow> real" where
  "realized t = premium t * real_of_int (quantity t) * 100"

text \<open>\<^verbatim>\<open>type IN ('CC', 'CSP')\<close> and \<^verbatim>\<open>type IN ('CC', 'CSP') AND status != 'OPEN'\<close>.\<close>

definition is_cc_csp :: "trade \<Rightarrow> bool" where
  "is_cc_csp t \<longleftrightarrow> trade_type t = CC \<or> trade_type t = CSP"

definition counted :: "trade \<Rightarrow> bool" where
  "counted t \<longleftrightarrow> is_cc_csp t \<and> status t \<noteq> OPEN"

text \<open>\<^verbatim>\<open>COALESCE(SUM(premium * quantity * 100), 0)\<close> over the selected rows.\<close>

definition sum_premium :: "trade list \<Rightarrow> real" where
  "sum_premium rows = sum_list (map realized rows)"

definition sql_date :: "trade \<Rightarrow> string" where
  "sql_date t = isoformat (opened_at t)"

text \<open>\<^verbatim>\<open>strftime('%Y', x)\<close> and \<^verbatim>\<open>strftime('%Y-%m', x)\<close> of a date.\<close>

definition strftime_Y :: "date \<Rightarrow> string" where
  "strftime_Y d = take 4 (isoformat d)"

definition strftime_Ym :: "date \<Rightarrow> string" where
  "strftime_Ym d = take 7 (isoformat d)"

text \<open>\<^verbatim>\<open>MIN\<close> of a text column: \<^verbatim>\<open>NULL\<close> over no rows.\<close>

definition sql_min :: "string list \<Rightarrow> string option" where
  "sql_min xs = (case xs of [] \<Rightarrow> None | x # rest \<Rightarrow> Some (fold min rest x))"

definition get_first_trade_date :: "trade list \<Rightarrow> py_error + date option" where
  "get_first_trade_date ledger =
     (case sql_min (map sql_date (filter is_cc_csp ledger)) of
        None \<Rightarrow> Inr None
      | Some first_date \<Rightarrow>
          (case strptime first_date of Inl e \<Rightarrow> Inl e | Inr d \<Rightarrow> Inr (Some d)))"

definition get_current_week_number :: "trade list \<Rightarrow> date \<Rightarrow> py_error + int" where
  "get_current_week_number ledger today =
     (case get_first_trade_date ledger of
        Inl e \<Rightarrow> Inl e
      | Inr None \<Rightarrow> Inr 0
      | Inr (Some first_trade) \<Rightarrow>
          (let days_since_start = days_between today first_trade
           in Inr (days_since_start div 7 + 1)))"

text \<open>
  The rows of the \<^verbatim>\<open>GROUP BY year ORDER BY year DESC\<close> query, and the dictionary the loop
  over them fills: an association list in insertion order, as a Python \<^verbatim>\<open>dict\<close> keeps it.
\<close>

definition yearly_rows :: "trade list \<Rightarrow> (string \<times> real) list" where
  "yearly_rows ledger =
     (let rows = filter counted ledger;
          years = rev (sort (remdups (map (\<lambda>t. strftime_Y (opened_at t)) rows)))
      in map (\<lambda>y. (y, sum_premium (filter (\<lambda>t. strftime_Y (opened_at t) = y) rows))) years)"

fun dict_set :: "('k \<times> 'v) list \<Rightarrow> 'k \<Rightarrow> 'v \<Rightarrow> ('k \<times> 'v) list" where
  "dict_set [] k v = [(k, v)]"
| "dict_set ((k', v') # rest) k v =
     (if k' = k then (k, v) # rest else (k', v') # dict_set rest k v)"

definition dict_values :: "('k \<times> 'v) list \<Rightarrow> 'v list" where
  "dict_values d = map snd d"

record premium_summary =
  week :: real
  week_number :: int
  month_premium :: real
  ytd :: real
  yearly :: "(string \<times> real) list"
  projected :: real
  first_trade_date :: "date option"

text \<open>
  \<^verbatim>\<open>get_premium_summary\<close>. \<open>today\<close> is \<^verbatim>\<open>date.today()\<close>, the local date of Python;
  \<open>now\<close> is the date of SQLite's \<^verbatim>\<open>'now'\<close>, which is in UTC and so can be the day before
  or after.
\<close>

definition get_premium_summary :: "trade list \<Rightarrow> date \<Rightarrow> date \<Rightarrow> py_error + premium_summary" where
  "get_premium_summary ledger today now =
     (case get_first_trade_date ledger of
        Inl e \<Rightarrow> Inl e
      | Inr first_trade \<Rightarrow>
     (case get_current_week_number ledger today of
        Inl e \<Rightarrow> Inl e
      | Inr week_no \<Rightarrow>
     (case (case first_trade of
              Some ft \<Rightarrow> (let weeks_elapsed = days_between today ft div 7
                          in date_add_days ft (weeks_elapsed * 7))
            | None \<Rightarrow> Inr today) of
        Inl e \<Rightarrow> Inl e
      | Inr current_week_start \<Rightarrow>
          (let week_premium = sum_premium (filter (\<lambda>t. counted t
                   \<and> sql_date t \<ge> isoformat current_week_start) ledger);
               month_total = sum_premium (filter (\<lambda>t. counted t
                   \<and> strftime_Ym (opened_at t) = strftime_Ym now) ledger);
               start_year = (case first_trade of Some ft \<Rightarrow> year ft | None \<Rightarrow> year today);
               ytd_premium = sum_premium (filter (\<lambda>t. counted t
                   \<and> strftime_Y (opened_at t) = py_str start_year) ledger);
               yearly_premiums = fold (\<lambda>(y, total) d. dict_set d y total) (yearly_rows ledger) [];
               proj =
                 (if (case first_trade of Some ft \<Rightarrow> year ft = year today | None \<Rightarrow> False)
                  then (let days_elapsed = days_between today (the first_trade) + 1;
                            days_remaining_in_year =
                              days_between \<lparr>year = year today, month = 12, day = 31\<rparr> today;
                            total_days = days_elapsed + days_remaining_in_year
                        in if days_elapsed > 0
                           then (ytd_premium / real_of_int days_elapsed) * real_of_int total_days
                           else 0)
                  else (let days_elapsed = days_between today (today\<lparr>month := 1, day := 1\<rparr>) + 1;
                            days_in_year = (if isleap (year today) then 366 else 365)
                        in if days_elapsed > 0
                           then (ytd_premium / real_of_int days_elapsed) * real_of_int days_in_year
                           else 0))
           in Inr \<lparr>week = week_premium, week_number = week_no, month_premium = month_total,
                   ytd = ytd_premium, yearly = yearly_premiums, projected = proj,
                   first_trade_date = first_trade\<rparr>))))"

text \<open>
  \<^verbatim>\<open>get_top_performers\<close>. \<^verbatim>\<open>GROUP BY ticker\<close> gives one row for each ticker among the
  selected rows and \<^verbatim>\<open>ORDER BY total_premium DESC\<close> sorts them. SQLite promises no order
  among rows of equal total, and the order it gives is not the order of the tickers:
  \<open>arrange\<close> stands for the order in which it happens to hand the groups to the sort,
  which then is a stable sort. Every order of the equal totals comes from some \<open>arrange\<close>,
  and the theorems hold for every one that only reorders its rows. \<^verbatim>\<open>LIMIT\<close> with a
  negative number is no limit.
\<close>

definition sql_limit :: "int \<Rightarrow> 'a list \<Rightarrow> 'a list" where
  "sql_limit n rows = (if n < 0 then rows else take (nat n) rows)"

definition get_top_performers ::
  "((string \<times> real) list \<Rightarrow> (string \<times> real) list)
     \<Rightarrow> trade list \<Rightarrow> string \<Rightarrow> int \<Rightarrow> date \<Rightarrow> (string \<times> real) list" where
  "get_top_performers arrange ledger period limit now =
     (let date_filter =
            (if period = ''mtd''
             then (\<lambda>t. strftime_Ym (opened_at t) = strftime_Ym now)
             else (\<lambda>t. strftime_Y (opened_at t) = strftime_Y now));
          rows = filter (\<lambda>t. counted t \<and> date_filter t) ledger;
          groups = map (\<lambda>k. (k, sum_premium (filter (\<lambda>t. ticker t = k) rows)))
                       (sort (remdups (map ticker rows)))
      in sql_limit limit (sort_key (\<lambda>(k, total). - total) (arrange groups)))"

section \<open>Positions and assignments\<close>

text \<open>
  The position methods of \<^verbatim>\<open>Database\<close> and \<^verbatim>\<open>_submit_assignment\<close> of
  \<^verbatim>\<open>src/components/trade_dialog.py\<close>, on the two tables as explicit state.
  \<open>upper\<close> is \<^verbatim>\<open>str.upper\<close> on ASCII text, which ticker symbols are; letters outside ASCII,
  which \<^verbatim>\<open>str.upper\<close> would map too, are left as they are.
\<close>

definition upper_char :: "char \<Rightarrow> char" where
  "upper_char c =
     (if 97 \<le> (of_char c :: nat) \<and> (of_char c :: nat) \<le> 122
      then char_of ((of_char c :: nat) - 32) else c)"

definition upper :: "string \<Rightarrow> string" where
  "upper s = map upper_char s"

definition get_position :: "database \<Rightarrow> string \<Rightarrow> position option" where
  "get_position db tk = find (\<lambda>p. pos_ticker p = upper tk) (positions db)"

text \<open>
  \<^verbatim>\<open>create_position\<close> with its default arguments; the new \<^verbatim>\<open>AUTOINCREMENT\<close> id is one more
  than every id of the table.
\<close>

definition next_id :: "nat list \<Rightarrow> nat" where
  "next_id ids = Suc (fold max ids 0)"

definition create_position :: "database \<Rightarrow> string \<Rightarrow> database \<times> nat" where
  "create_position db tk =
     (let new_id = next_id (map pos_id (positions db))
      in (db\<lparr>positions := positions db
               @ [\<lparr>pos_id = new_id, pos_ticker = upper tk, shares_owned = 0, cost_basis = 0\<rparr>]\<rparr>,
          new_id))"

definition update_position :: "database \<Rightarrow> nat \<Rightarrow> int option \<Rightarrow> real option \<Rightarrow> database" where
  "update_position db pid shares cb =
     (if shares = None \<and> cb = None then db
      else db\<lparr>positions := map (\<lambda>p.
             if pos_id p = pid
             then p\<lparr>shares_owned := (case shares of Some s \<Rightarrow> s | None \<Rightarrow> shares_owned p),
                    cost_basis := (case cb of Some c \<Rightarrow> c | None \<Rightarrow> cost_basis p)\<rparr>
             else p) (positions db)\<rparr>)"

definition get_or_create_position :: "database \<Rightarrow> string \<Rightarrow> database \<times> position" where
  "get_or_create_position db tk =
     (case get_position db tk of
        Some p \<Rightarrow> (db, p)
      | None \<Rightarrow>
          (let (db', new_id) = create_position db tk
           in (db', \<lparr>pos_id = new_id, pos_ticker = upper tk,
                     shares_owned = 0, cost_basis = 0\<rparr>)))"

text \<open>
  \<^verbatim>\<open>create_trade\<close>: the row gets the column defaults, status \<^verbatim>\<open>OPEN\<close> and the current
  timestamp \<open>now\<close> as \<^verbatim>\<open>opened_at\<close>.
\<close>

definition create_trade ::
  "database \<Rightarrow> string \<Rightarrow> trade_type \<Rightarrow> real option \<Rightarrow> real \<Rightarrow> int \<Rightarrow> date \<Rightarrow> database \<times> nat" where
  "create_trade db tk ty strike_price prem qty now =
     (let (db', p) = get_or_create_position db tk;
          new_id = next_id (map trade_id (trades db'))
      in (db'\<lparr>trades := trades db'
               @ [\<lparr>trade_id = new_id, position_id = pos_id p, trade_type = ty,
                    ticker = upper tk, strike = strike_price, premium = prem,
                    quantity = qty, status = OPEN, opened_at = now\<rparr>]\<rparr>,
          new_id))"

text \<open>
  \<^verbatim>\<open>_submit_assignment\<close>. \<open>tk\<close> is the text of the ticker field after \<^verbatim>\<open>strip()\<close>,
  \<open>shares\<close> and \<open>cost\<close> the values of the two spin boxes, \<open>is_put\<close> the choice of the
  combo box. With no ticker the dialog warns and nothing is written.
\<close>

definition submit_assignment ::
  "database \<Rightarrow> string \<Rightarrow> int \<Rightarrow> real \<Rightarrow> bool \<Rightarrow> date \<Rightarrow> database" where
  "submit_assignment db tk shares cost is_put now =
     (let tkr = upper tk
      in if tkr = [] then db
         else
           let (db1, p) = get_or_create_position db tkr;
               db2 =
                 (if is_put
                  then (let new_shares = shares_owned p + shares;
                            old_cost = cost_basis p * real_of_int (shares_owned p);
                            new_cost = old_cost + cost * real_of_int shares;
                            avg_cost = (if new_shares > 0
                                        then new_cost / real_of_int new_shares else cost)
                        in update_position db1 (pos_id p) (Some new_shares) (Some avg_cost))
                  else (let new_shares = max 0 (shares_owned p - shares)
                        in update_position db1 (pos_id p) (Some new_shares) None))
           in fst (create_trade db2 tkr ASSIGNMENT (Some cost) 0 (shares div 100) now))"

section \<open>Notions of the specification\<close>

text \<open>
  The order of dates by year, then month, then day, which is the order of their ISO text.
\<close>

definition date_lex_less :: "date \<Rightarrow> date \<Rightarrow> bool" where
  "date_lex_less d1 d2 \<longleftrightarrow>
     year d1 < year d2 \<or> (year d1 = year d2 \<and>
       (month d1 < month d2 \<or> (month d1 = month d2 \<and> day d1 < day d2)))"

text \<open>
  What the specification calls a well-formed ledger and its anchor date: every
  \<^verbatim>\<open>opened_at\<close> is a date of the calendar, and the anchor is the earliest \<^verbatim>\<open>opened_at\<close>
  date among the trades of type CC or CSP.
\<close>

definition valid_ledger :: "trade list \<Rightarrow> bool" where
  "valid_ledger ledger \<longleftrightarrow> list_all (\<lambda>t. valid_date (opened_at t)) ledger"

definition is_anchor :: "trade list \<Rightarrow> date \<Rightarrow> bool" where
  "is_anchor ledger a \<longleftrightarrow>
     list_ex (\<lambda>t. is_cc_csp t \<and> opened_at t = a) ledger
     \<and> list_all (\<lambda>t. is_cc_csp t \<longrightarrow> toordinal a \<le> toordinal (opened_at t)) ledger"

text \<open>
  A small ledger for the examples, after the first rows of \<^verbatim>\<open>_populate_demo_data\<close>: three
  expired trades opened from 6 January 2026 on, then an open put and an assignment record.
\<close>

definition demo_ledger :: "trade list" where
  "demo_ledger =
     [\<lparr>trade_id = 1, position_id = 1, trade_type = CC, ticker = ''FLY'', strike = Some 50,
       premium = 98 / 100, quantity = 1, status = EXPIRED,
       opened_at = \<lparr>year = 2026, month = 1, day = 6\<rparr>\<rparr>,
      \<lparr>trade_id = 2, position_id = 2, trade_type = CC, ticker = ''RDW'', strike = Some 20,
       premium = 80 / 100, quantity = 1, status = EXPIRED,
       opened_at = \<lparr>year = 2026, month = 1, day = 7\<rparr>\<rparr>,
      \<lparr>trade_id = 3, position_id = 3, trade_type = CSP, ticker = ''ACB'', strike = Some 10,
       premium = 40 / 100, quantity = 1, status = EXPIRED,
       opened_at = \<lparr>year = 2026, month = 1, day = 9\<rparr>\<rparr>,
      \<lparr>trade_id = 4, position_id = 1, trade_type = CSP, ticker = ''FLY'', strike = Some 45,
       premium = 1, quantity = 2, status = OPEN,
       opened_at = \<lparr>year = 2026, month = 1, day = 14\<rparr>\<rparr>,
      \<lparr>trade_id = 5, position_id = 3, trade_type = ASSIGNMENT, ticker = ''ACB'', strike = Some 10,
       premium = 0, quantity = 1, status = OPEN,
       opened_at = \<lparr>year = 2026, month = 1, day = 15\<rparr>\<rparr>]"

text \<open>The day number of \<open>anchor + 7 * floor ((today - anchor).days / 7)\<close>.\<close>

definition week_start_ordinal :: "date \<Rightarrow> date \<Rightarrow> int" where
  "week_start_ordinal a today = toordinal a + 7 * ((toordinal today - toordinal a) div 7)"

text \<open>
  The period of \<^verbatim>\<open>get_top_performers\<close> in terms of dates: the calendar month of \<open>now\<close> for
  \<^verbatim>\<open>'mtd'\<close>, the calendar year of \<open>now\<close> for anything else.
\<close>

definition in_period :: "string \<Rightarrow> date \<Rightarrow> trade \<Rightarrow> bool" where
  "in_period period now t \<longleftrightarrow>
     (if period = ''mtd''
      then year (opened_at t) = year now \<and> month (opened_at t) = month now
      else year (opened_at t) = year now)"

text \<open>
  The tickers that have a trade of type CC or CSP with status other than OPEN in the
  period, each once, and the realized premium of such a ticker in the period.
\<close>

definition period_tickers :: "trade list \<Rightarrow> string \<Rightarrow> date \<Rightarrow> string list" where
  "period_tickers ledger period now =
     remdups (map ticker (filter (\<lambda>t. (trade_type t = CC \<or> trade_type t = CSP)
        \<and> status t \<noteq> OPEN \<and> in_period period now t) ledger))"

definition period_total :: "trade list \<Rightarrow> string \<Rightarrow> date \<Rightarrow> string \<Rightarrow> real" where
  "period_total ledger period now k =
     sum_list (map (\<lambda>t. premium t * real_of_int (quantity t) * 100)
       (filter (\<lambda>t. (trade_type t = CC \<or> trade_type t = CSP) \<and> status t \<noteq> OPEN
          \<and> in_period period now t \<and> ticker t = k) ledger))"

text \<open>Two tickers with equal totals, for the order SQLite leaves open.\<close>

definition tie_ledger :: "trade list" where
  "tie_ledger =
     [\<lparr>trade_id = 1, position_id = 1, trade_type = CC, ticker = ''AAA'', strike = Some 50,
       premium = 1, quantity = 1, status = EXPIRED,
       opened_at = \<lparr>year = 2026, month = 1, day = 6\<rparr>\<rparr>,
      \<lparr>trade_id = 2, position_id = 2, trade_type = CSP, ticker = ''CCC'', strike = Some 20,
       premium = 1, quantity = 1, status = EXPIRED,
       opened_at = \<lparr>year = 2026, month = 1, day = 7\<rparr>\<rparr>]"

section \<open>Calendar arithmetic\<close>

lemma div_step:
  fixes z k :: int
  assumes "0 < k"
  shows "(z + 1) div k = z div k + (if (z + 1) mod k = 0 then 1 else 0)"
proof -
  define q where "q = z div k"
  define r where "r = z mod k"
  have z: "z = k * q + r" and r: "0 \<le> r" "r < k"
    using assms by (simp_all add: q_def r_def)
  show ?thesis
  proof (cases "r = k - 1")
    case True
    then have e: "z + 1 = k * (q + 1) + 0" using z by (simp add: algebra_simps)
    have "(z + 1) div k = q + 1"
      using e assms by (intro int_div_pos_eq[where r = 0]) auto
    moreover have "(z + 1) mod k = 0"
      using e assms by (intro int_mod_pos_eq[where q = "q + 1"]) auto
    ultimately show ?thesis by (simp add: q_def)
  next
    case False
    then have e: "z + 1 = k * q + (r + 1)" and b: "0 \<le> r + 1" "r + 1 < k" "r + 1 \<noteq> 0"
      using z r by auto
    have "(z + 1) div k = q"
      using e b by (intro int_div_pos_eq[where r = "r + 1"]) auto
    moreover have "(z + 1) mod k = r + 1"
      using e b by (intro int_mod_pos_eq[where q = q]) auto
    ultimately show ?thesis using b by (simp add: q_def)
  qed
qed

lemma days_before_year_step:
  "days_before_year (y + 1) = days_before_year y + (if isleap y then 366 else 365)"
proof -
  define p4 where "p4 = (y - 1) div 4"
  define p100 where "p100 = (y - 1) div 100"
  define p400 where "p400 = (y - 1) div 400"
  have a: "y div 4 = p4 + (if y mod 4 = 0 then 1 else 0)"
    using div_step[of 4 "y - 1"] by (simp add: p4_def)
  have b: "y div 100 = p100 + (if y mod 100 = 0 then 1 else 0)"
    using div_step[of 100 "y - 1"] by (simp add: p100_def)
  have c: "y div 400 = p400 + (if y mod 400 = 0 then 1 else 0)"
    using div_step[of 400 "y - 1"] by (simp add: p400_def)
  have d1: "y mod 100 = 0" if "y mod 400 = 0"
  proof -
    have "(400::int) = 100 * 4" by simp
    moreover have "400 dvd y" using that by (simp only: dvd_eq_mod_eq_0)
    ultimately have "100 dvd y" by (metis dvd_mult_left)
    then show ?thesis by (simp only: dvd_eq_mod_eq_0)
  qed
  have d2: "y mod 4 = 0" if "y mod 100 = 0"
  proof -
    have "(100::int) = 4 * 25" by simp
    moreover have "100 dvd y" using that by (simp only: dvd_eq_mod_eq_0)
    ultimately have "4 dvd y" by (metis dvd_mult_left)
    then show ?thesis by (simp only: dvd_eq_mod_eq_0)
  qed
  have l: "days_before_year (y + 1) = y * 365 + y div 4 - y div 100 + y div 400"
    by (simp add: days_before_year_def)
  have r: "days_before_year y = (y - 1) * 365 + p4 - p100 + p400"
    by (simp only: days_before_year_def p4_def p100_def p400_def)
  show ?thesis
  proof (cases "y mod 4 = 0")
    case False
    have n100: "y mod 100 \<noteq> 0"
    proof
      assume "y mod 100 = 0"
      then have "y mod 4 = 0" by (rule d2)
      with False show False by simp
    qed
    have n400: "y mod 400 \<noteq> 0"
    proof
      assume "y mod 400 = 0"
      then have "y mod 100 = 0" by (rule d1)
      with n100 show False by simp
    qed
    note n100 n400
    then show ?thesis unfolding l r a b c isleap_def using False by (simp add: algebra_simps)
  next
    case t4: True
    show ?thesis
    proof (cases "y mod 100 = 0")
      case False
      have "y mod 400 \<noteq> 0"
      proof
        assume "y mod 400 = 0"
        then have "y mod 100 = 0" by (rule d1)
        with False show False by simp
      qed
      then show ?thesis unfolding l r a b c isleap_def using False t4 by (simp add: algebra_simps)
    next
      case t100: True
      show ?thesis unfolding l r a b c isleap_def using t4 t100 by (simp add: algebra_simps)
    qed
  qed
qed

lemma days_before_year_mono_aux:
  "0 \<le> k \<Longrightarrow> days_before_year y + 365 * k \<le> days_before_year (y + k)"
proof (induction k rule: int_ge_induct)
  case base
  then show ?case by simp
next
  case (step i)
  have "days_before_year (y + i) + 365 \<le> days_before_year (y + i + 1)"
    by (simp only: days_before_year_step split: if_splits) simp
  moreover have "days_before_year (y + (i + 1)) = days_before_year (y + i + 1)"
    by (simp only: add.assoc)
  moreover have "365 * (i + 1) = 365 * i + 365" by simp
  ultimately show ?case using step.IH by linarith
qed

lemma days_before_year_less:
  assumes "y1 < y2"
  shows "days_before_year (y1 + 1) \<le> days_before_year y2"
  using days_before_year_mono_aux[of "y2 - (y1 + 1)" "y1 + 1"] assms by simp

lemma month_cases:
  fixes m :: int
  assumes "1 \<le> m" "m \<le> 12"
  shows "m = 1 \<or> m = 2 \<or> m = 3 \<or> m = 4 \<or> m = 5 \<or> m = 6 \<or> m = 7 \<or> m = 8 \<or> m = 9 \<or> m = 10 \<or> m = 11 \<or> m = 12"
  using assms by presburger

lemma ord2md_ok:
  assumes "0 \<le> n" "n < 365" "ord2md lp n = (m, d)"
  shows "1 \<le> m \<and> m \<le> 12 \<and> 1 \<le> d
       \<and> d \<le> DAYS_IN_MONTH m + (if m = 2 \<and> lp then 1 else 0)
       \<and> DAYS_BEFORE_MONTH m + (if m > 2 \<and> lp then 1 else 0) + d = n + 1"
proof -
  define k where "k = (n + 50) div 32"
  have k: "32 * k \<le> n + 50" "n + 50 < 32 * k + 32"
    unfolding k_def by presburger+
  then have "1 \<le> k" "k \<le> 12" using assms(1,2) by auto
  then have "k = 1 \<or> k = 2 \<or> k = 3 \<or> k = 4 \<or> k = 5 \<or> k = 6 \<or> k = 7 \<or> k = 8 \<or> k = 9 \<or> k = 10 \<or> k = 11 \<or> k = 12"
    by (rule month_cases)
  then show ?thesis
    using assms(3) k assms(1,2) unfolding ord2md_def k_def[symmetric] Let_def
    by (elim disjE) (simp_all add: DAYS_BEFORE_MONTH_def DAYS_IN_MONTH_def split: if_splits)
qed

lemma divmod_parts:
  fixes n k :: int
  assumes "0 < k"
  shows "n = k * (n div k) + n mod k" "0 \<le> n mod k" "n mod k < k"
  using assms by simp_all

lemma divmod_eq:
  fixes x k q r :: int
  assumes "x = k * q + r" "0 \<le> r" "r < k"
  shows "x div k = q" "x mod k = r"
  using assms by (rule int_div_pos_eq, rule int_mod_pos_eq)

lemma fromordinal_props:
  assumes "1 \<le> n0"
  shows "toordinal (fromordinal n0) = n0
       \<and> 1 \<le> month (fromordinal n0) \<and> month (fromordinal n0) \<le> 12
       \<and> 1 \<le> day (fromordinal n0)
       \<and> day (fromordinal n0) \<le> days_in_month (year (fromordinal n0)) (month (fromordinal n0))"
proof -
  define n where "n = n0 - 1"
  define a where "a = n div 146097"
  define r where "r = n mod 146097"
  define b where "b = r div 36524"
  define s where "s = r mod 36524"
  define c where "c = s div 1461"
  define t where "t = s mod 1461"
  define e where "e = t div 365"
  define u where "u = t mod 365"
  have n: "0 \<le> n" using assms by (simp add: n_def)
  have nr: "n = 146097 * a + r" "0 \<le> r" "r < 146097"
    unfolding a_def r_def by (rule divmod_parts, simp)+
  have rs: "r = 36524 * b + s" "0 \<le> s" "s < 36524"
    unfolding b_def s_def by (rule divmod_parts, simp)+
  have st: "s = 1461 * c + t" "0 \<le> t" "t < 1461"
    unfolding c_def t_def by (rule divmod_parts, simp)+
  have tu: "t = 365 * e + u" "0 \<le> u" "u < 365"
    unfolding e_def u_def by (rule divmod_parts, simp)+
  have b0: "0 \<le> b" "b \<le> 4" using nr rs by linarith+
  have c0: "0 \<le> c" "c \<le> 24" using rs st by linarith+
  have e0: "0 \<le> e" "e \<le> 4" using st tu by linarith+
  have fo: "fromordinal n0 =
      (if e = 4 \<or> b = 4 then \<lparr>year = a * 400 + 1 + b * 100 + c * 4 + e - 1, month = 12, day = 31\<rparr>
       else (let (m, d) = ord2md (e = 3 \<and> (c \<noteq> 24 \<or> b = 3)) u
             in \<lparr>year = a * 400 + 1 + b * 100 + c * 4 + e, month = m, day = d\<rparr>))"
    unfolding fromordinal_def Let_def n_def a_def r_def b_def s_def c_def t_def e_def u_def
    by (rule refl)
  show ?thesis
  proof (cases "e = 4 \<or> b = 4")
    case False
    then have b3: "b \<le> 3" and e3: "e \<le> 3" using b0 e0 by linarith+
    define Y where "Y = 400 * a + 100 * b + 4 * c + e"
    define lp where "lp \<longleftrightarrow> e = 3 \<and> (c \<noteq> 24 \<or> b = 3)"
    obtain m d where md: "ord2md lp u = (m, d)" by (cases "ord2md lp u")
    have "a * 400 + 1 + b * 100 + c * 4 + e = Y + 1" by (simp add: Y_def)
    then have fo': "fromordinal n0 = \<lparr>year = Y + 1, month = m, day = d\<rparr>"
      using False md unfolding fo lp_def[symmetric] by simp
    have "Y = 4 * (100 * a + 25 * b + c) + e" by (simp add: Y_def)
    from divmod_eq[OF this] e0 e3 have d4: "Y div 4 = 100 * a + 25 * b + c" by simp
    have "Y = 100 * (4 * a + b) + (4 * c + e)" by (simp add: Y_def)
    from divmod_eq[OF this] e0 e3 c0 have d100: "Y div 100 = 4 * a + b" by simp
    have "Y = 400 * a + (100 * b + 4 * c + e)" by (simp add: Y_def)
    from divmod_eq[OF this] e0 e3 c0 b0 b3 have d400: "Y div 400 = a" by simp
    have "days_before_year (Y + 1) = Y * 365 + Y div 4 - Y div 100 + Y div 400"
      by (simp add: days_before_year_def)
    also have "\<dots> = n - u"
      unfolding d4 d100 d400 using nr(1) rs(1) st(1) tu(1) by (simp add: Y_def)
    finally have dby: "days_before_year (Y + 1) = n - u" .
    have s4: "(Y + 1) mod 4 = 0 \<longleftrightarrow> e = 3"
    proof (cases "e = 3")
      case True
      then have "Y + 1 = 4 * (100 * a + 25 * b + c + 1) + 0" by (simp add: Y_def)
      from divmod_eq(2)[OF this] show ?thesis using True by simp
    next
      case False
      have "Y + 1 = 4 * (100 * a + 25 * b + c) + (e + 1)" by (simp add: Y_def)
      from divmod_eq(2)[OF this] False e0 e3 show ?thesis by simp
    qed
    have s100: "(Y + 1) mod 100 = 0 \<longleftrightarrow> c = 24 \<and> e = 3"
    proof (cases "c = 24 \<and> e = 3")
      case True
      then have "Y + 1 = 100 * (4 * a + b + 1) + 0" by (simp add: Y_def)
      from divmod_eq(2)[OF this] show ?thesis using True by simp
    next
      case False
      then have lt: "4 * c + e + 1 < 100" using c0 e0 e3 by linarith
      have "Y + 1 = 100 * (4 * a + b) + (4 * c + e + 1)" by (simp add: Y_def)
      from divmod_eq(2)[OF this _ lt] c0 e0 have "(Y + 1) mod 100 = 4 * c + e + 1" by simp
      then show ?thesis using False c0 e0 by simp
    qed
    have s400: "(Y + 1) mod 400 = 0 \<longleftrightarrow> b = 3 \<and> c = 24 \<and> e = 3"
    proof (cases "b = 3 \<and> c = 24 \<and> e = 3")
      case True
      then have "Y + 1 = 400 * (a + 1) + 0" by (simp add: Y_def)
      from divmod_eq(2)[OF this] show ?thesis using True by simp
    next
      case False
      then have lt: "100 * b + 4 * c + e + 1 < 400" using b0 b3 c0 e0 e3 by linarith
      have "Y + 1 = 400 * a + (100 * b + 4 * c + e + 1)" by (simp add: Y_def)
      from divmod_eq(2)[OF this _ lt] b0 c0 e0 have "(Y + 1) mod 400 = 100 * b + 4 * c + e + 1" by simp
      then show ?thesis using False b0 c0 e0 by simp
    qed
    have leap: "isleap (Y + 1) \<longleftrightarrow> lp"
      unfolding isleap_def lp_def s4 s100 s400 by blast
    note ok = ord2md_ok[OF tu(2) tu(3) md]
    have yr: "year \<lparr>year = Y + 1, month = m, day = d\<rparr> = Y + 1"
      and mo: "month \<lparr>year = Y + 1, month = m, day = d\<rparr> = m"
      and da: "day \<lparr>year = Y + 1, month = m, day = d\<rparr> = d" by simp_all
    have "days_before_month (Y + 1) m + d = u + 1"
      using ok by (simp add: days_before_month_def leap)
    then have 1: "toordinal (fromordinal n0) = n0"
      unfolding fo' toordinal_def yr mo da dby by (simp add: n_def)
    have 2: "d \<le> days_in_month (Y + 1) m"
      using ok by (simp add: days_in_month_def leap DAYS_IN_MONTH_def split: if_splits)
    show ?thesis
      unfolding fo' yr mo da using 1 2 ok unfolding fo' by simp
  next
    case True
    have dec31: "toordinal \<lparr>year = Y0, month = 12, day = 31\<rparr> = days_before_year (Y0 + 1)
        \<and> 31 \<le> days_in_month Y0 12" if "isleap Y0" for Y0
      using that
      by (simp add: toordinal_def days_before_year_step days_before_month_def
          DAYS_BEFORE_MONTH_def days_in_month_def DAYS_IN_MONTH_def)
    from True consider (b4) "b = 4" | (e4) "e = 4" "b \<le> 3" using b0 by linarith
    then show ?thesis
    proof cases
      case b4
      have s0: "s = 0" using nr rs b4 by linarith
      have c00: "c = 0" and t0: "t = 0" using st c0 s0 by linarith+
      have e00: "e = 0" and u00: "u = 0" using tu e0 t0 by linarith+
      define Y0 where "Y0 = 400 * (a + 1)"
      have fo': "fromordinal n0 = \<lparr>year = Y0, month = 12, day = 31\<rparr>"
        unfolding fo using b4 c00 e00 by (simp add: Y0_def)
      have "Y0 = 400 * (a + 1) + 0" by (simp add: Y0_def)
      note m400 = divmod_eq[OF this]
      have "Y0 = 100 * (4 * (a + 1)) + 0" by (simp add: Y0_def)
      note m100 = divmod_eq[OF this]
      have "Y0 = 4 * (100 * (a + 1)) + 0" by (simp add: Y0_def)
      note m4 = divmod_eq[OF this]
      have lp: "isleap Y0" unfolding isleap_def using m4(2) m400(2) by simp
      have "days_before_year (Y0 + 1) = Y0 * 365 + Y0 div 4 - Y0 div 100 + Y0 div 400"
        by (simp add: days_before_year_def)
      also have "\<dots> = n0"
        using m4(1) m100(1) m400(1) nr(1) rs(1) b4 s0 by (simp add: Y0_def n_def)
      finally show ?thesis
        using dec31[OF lp] unfolding fo' by simp
    next
      case e4
      have u0: "u = 0" using tu st e4 by linarith
      have c23: "c \<le> 23" using rs st tu u0 e4 by linarith
      define Y0 where "Y0 = 400 * a + 100 * b + 4 * c + 4"
      have "a * 400 + 1 + b * 100 + c * 4 + e - 1 = Y0" using e4 by (simp add: Y0_def)
      then have fo': "fromordinal n0 = \<lparr>year = Y0, month = 12, day = 31\<rparr>"
        unfolding fo using e4 by simp
      have "Y0 = 4 * (100 * a + 25 * b + c + 1) + 0" by (simp add: Y0_def)
      note m4 = divmod_eq[OF this]
      have "Y0 = 100 * (4 * a + b) + (4 * c + 4)" by (simp add: Y0_def)
      from divmod_eq[OF this] c0 c23 have m100: "Y0 div 100 = 4 * a + b" "Y0 mod 100 = 4 * c + 4"
        by simp_all
      have "Y0 = 400 * a + (100 * b + 4 * c + 4)" by (simp add: Y0_def)
      from divmod_eq[OF this] c0 c23 b0 e4 have m400: "Y0 div 400 = a" by simp
      have lp: "isleap Y0" unfolding isleap_def using m4(2) m100(2) c0 by simp
      have "days_before_year (Y0 + 1) = Y0 * 365 + Y0 div 4 - Y0 div 100 + Y0 div 400"
        by (simp add: days_before_year_def)
      also have "\<dots> = n0"
        using m4(1) m100(1) m400 nr(1) rs(1) st(1) tu(1) e4 u0 by (simp add: Y0_def n_def)
      finally show ?thesis
        using dec31[OF lp] unfolding fo' by simp
    qed
  qed
qed

section \<open>The order of ISO text is the order of dates\<close>

lemma of_char_digit_char: "n < 10 \<Longrightarrow> (of_char (digit_char n) :: nat) = 48 + n"
  by (simp add: digit_char_def)

lemma digit_char_less_iff:
  "a < 10 \<Longrightarrow> b < 10 \<Longrightarrow> digit_char a < digit_char b \<longleftrightarrow> a < b"
  by (simp add: less_char_def of_char_digit_char)

lemma digit_char_eq_iff:
  "a < 10 \<Longrightarrow> b < 10 \<Longrightarrow> digit_char a = digit_char b \<longleftrightarrow> a = b"
  using of_char_digit_char[of a] of_char_digit_char[of b] by (metis add_left_cancel)

lemma digit_nat_bound: "nat (x mod 10) < 10" for x :: int
  by simp

lemma digit_less_iff:
  "digit_char (nat (x mod 10)) < digit_char (nat (y mod 10)) \<longleftrightarrow> x mod 10 < y mod 10" for x y :: int
proof -
  have "0 \<le> x mod 10" "0 \<le> y mod 10" by simp_all
  then have "nat (x mod 10) < nat (y mod 10) \<longleftrightarrow> x mod 10 < y mod 10" by linarith
  then show ?thesis
    by (simp only: digit_char_less_iff[OF digit_nat_bound digit_nat_bound])
qed

lemma digit_eq_iff:
  "digit_char (nat (x mod 10)) = digit_char (nat (y mod 10)) \<longleftrightarrow> x mod 10 = y mod 10" for x y :: int
proof -
  have "0 \<le> x mod 10" "0 \<le> y mod 10" by simp_all
  then have "nat (x mod 10) = nat (y mod 10) \<longleftrightarrow> x mod 10 = y mod 10" by linarith
  then show ?thesis
    by (simp only: digit_char_eq_iff[OF digit_nat_bound digit_nat_bound])
qed

lemma less_div10:
  fixes a b :: int
  shows "a < b \<longleftrightarrow> a div 10 < b div 10 \<or> (a div 10 = b div 10 \<and> a mod 10 < b mod 10)"
proof -
  define q r q' r' where "q = a div 10" and "r = a mod 10" and "q' = b div 10" and "r' = b mod 10"
  have a: "a = 10 * q + r" "0 \<le> r" "r < 10" and b: "b = 10 * q' + r'" "0 \<le> r'" "r' < 10"
    by (simp_all add: q_def r_def q'_def r'_def)
  have "10 * q + r < 10 * q' + r' \<longleftrightarrow> q < q' \<or> (q = q' \<and> r < r')"
    using a(2,3) b(2,3) by linarith
  then show ?thesis
    unfolding a(1) b(1) by (simp only: q_def[symmetric] r_def[symmetric] q'_def[symmetric] r'_def[symmetric] a(1)[symmetric] b(1)[symmetric])
qed

lemma eq_div10:
  fixes a b :: int
  shows "a = b \<longleftrightarrow> a div 10 = b div 10 \<and> a mod 10 = b mod 10"
  by (metis mult_div_mod_eq)

lemma pad2_less_iff:
  assumes "0 \<le> a" "a \<le> 99" "0 \<le> b" "b \<le> 99"
  shows "pad2 a < pad2 b \<longleftrightarrow> a < b"
proof -
  have "a div 10 mod 10 = a div 10" "b div 10 mod 10 = b div 10"
    using assms by simp_all
  then show ?thesis
    unfolding pad2_def Cons_less_Cons digit_less_iff digit_eq_iff
    using less_div10[of a b] by simp
qed

lemma pad2_eq_iff:
  assumes "0 \<le> a" "a \<le> 99" "0 \<le> b" "b \<le> 99"
  shows "pad2 a = pad2 b \<longleftrightarrow> a = b"
proof -
  have "a div 10 mod 10 = a div 10" "b div 10 mod 10 = b div 10"
    using assms by simp_all
  then show ?thesis
    unfolding pad2_def list.inject digit_eq_iff
    using eq_div10[of a b] by simp
qed

lemma div_div10: "a div 10 div 10 = a div 100" "a div 100 div 10 = a div 1000" for a :: int
  by (simp_all add: zdiv_zmult2_eq)

lemma pad4_less_iff:
  assumes "0 \<le> a" "a \<le> 9999" "0 \<le> b" "b \<le> 9999"
  shows "pad4 a < pad4 b \<longleftrightarrow> a < b"
proof -
  have t: "a div 1000 mod 10 = a div 1000" "b div 1000 mod 10 = b div 1000"
    using assms by simp_all
  have "a < b \<longleftrightarrow> a div 1000 < b div 1000 \<or> (a div 1000 = b div 1000 \<and>
      (a div 100 mod 10 < b div 100 mod 10 \<or> (a div 100 mod 10 = b div 100 mod 10 \<and>
      (a div 10 mod 10 < b div 10 mod 10 \<or> (a div 10 mod 10 = b div 10 mod 10 \<and>
       a mod 10 < b mod 10)))))"
    using less_div10[of a b] less_div10[of "a div 10" "b div 10"] less_div10[of "a div 100" "b div 100"]
      eq_div10[of "a div 10" "b div 10"] eq_div10[of "a div 100" "b div 100"]
    unfolding div_div10 by blast
  moreover have "pad4 a < pad4 b \<longleftrightarrow> a div 1000 mod 10 < b div 1000 mod 10 \<or> (a div 1000 mod 10 = b div 1000 mod 10 \<and>
      (a div 100 mod 10 < b div 100 mod 10 \<or> (a div 100 mod 10 = b div 100 mod 10 \<and>
      (a div 10 mod 10 < b div 10 mod 10 \<or> (a div 10 mod 10 = b div 10 mod 10 \<and>
       a mod 10 < b mod 10)))))"
    by (simp only: pad4_def Cons_less_Cons digit_less_iff digit_eq_iff not_less_Nil simp_thms)
  ultimately show ?thesis
    unfolding t by blast
qed

lemma pad4_eq_iff:
  assumes "0 \<le> a" "a \<le> 9999" "0 \<le> b" "b \<le> 9999"
  shows "pad4 a = pad4 b \<longleftrightarrow> a = b"
  using pad4_less_iff[OF assms] pad4_less_iff[OF assms(3,4) assms(1,2)]
  by (metis less_irrefl linorder_neqE_linordered_idom)

lemma append_less_iff:
  fixes xs ys :: "'a::linorder list"
  assumes "length xs = length ys"
  shows "xs @ us < ys @ vs \<longleftrightarrow> xs < ys \<or> (xs = ys \<and> us < vs)"
  using assms by (induction xs ys rule: list_induct2) auto

lemma length_pad: "length (pad4 a) = 4" "length (pad2 a) = 2"
  by (simp_all add: pad4_def pad2_def)

lemma valid_date_fields:
  assumes "valid_date d"
  shows "0 \<le> year d" "year d \<le> 9999" "0 \<le> month d" "month d \<le> 99" "0 \<le> day d" "day d \<le> 99"
proof -
  have "days_in_month (year d) (month d) \<le> 31"
    by (simp add: days_in_month_def DAYS_IN_MONTH_def)
  then show "0 \<le> year d" "year d \<le> 9999" "0 \<le> month d" "month d \<le> 99" "0 \<le> day d" "day d \<le> 99"
    using assms unfolding valid_date_def by linarith+
qed

lemma isoformat_less_iff:
  assumes "valid_date d1" "valid_date d2"
  shows "isoformat d1 < isoformat d2 \<longleftrightarrow> date_lex_less d1 d2"
proof -
  note f1 = valid_date_fields[OF assms(1)] and f2 = valid_date_fields[OF assms(2)]
  have y: "pad4 (year d1) < pad4 (year d2) \<longleftrightarrow> year d1 < year d2"
    "pad4 (year d1) = pad4 (year d2) \<longleftrightarrow> year d1 = year d2"
    using pad4_less_iff pad4_eq_iff f1 f2 by blast+
  have m: "pad2 (month d1) < pad2 (month d2) \<longleftrightarrow> month d1 < month d2"
    "pad2 (month d1) = pad2 (month d2) \<longleftrightarrow> month d1 = month d2"
    using pad2_less_iff pad2_eq_iff f1 f2 by blast+
  have d: "pad2 (day d1) < pad2 (day d2) \<longleftrightarrow> day d1 < day d2"
    using pad2_less_iff f1 f2 by blast
  have l4: "length (pad4 (year d1)) = length (pad4 (year d2))"
    and l2: "length (pad2 (month d1)) = length (pad2 (month d2))"
    by (simp_all only: length_pad)
  have "isoformat d1 < isoformat d2 \<longleftrightarrow>
      pad4 (year d1) < pad4 (year d2) \<or> (pad4 (year d1) = pad4 (year d2) \<and>
        (pad2 (month d1) < pad2 (month d2) \<or> (pad2 (month d1) = pad2 (month d2) \<and>
          pad2 (day d1) < pad2 (day d2))))"
    unfolding isoformat_def append_less_iff[OF l4]
    by (simp add: append_less_iff[OF l2])
  then show ?thesis
    unfolding y m d date_lex_less_def .
qed

lemma month_step_le:
  assumes "1 \<le> m1" "m1 < m2" "m2 \<le> 12"
  shows "days_before_month y m1 + days_in_month y m1 \<le> days_before_month y m2"
proof -
  have c1: "m1 = 1 \<or> m1 = 2 \<or> m1 = 3 \<or> m1 = 4 \<or> m1 = 5 \<or> m1 = 6 \<or> m1 = 7 \<or> m1 = 8 \<or> m1 = 9 \<or> m1 = 10 \<or> m1 = 11 \<or> m1 = 12"
    using assms by (intro month_cases) linarith+
  have c2: "m2 = 1 \<or> m2 = 2 \<or> m2 = 3 \<or> m2 = 4 \<or> m2 = 5 \<or> m2 = 6 \<or> m2 = 7 \<or> m2 = 8 \<or> m2 = 9 \<or> m2 = 10 \<or> m2 = 11 \<or> m2 = 12"
    using assms by (intro month_cases) linarith+
  from c1 show ?thesis
  proof (elim disjE)
  qed (use c2 assms(2) in \<open>elim disjE; simp add: days_before_month_def days_in_month_def DAYS_BEFORE_MONTH_def DAYS_IN_MONTH_def\<close>)+
qed

lemma day_of_year_bounds:
  assumes "valid_date d"
  shows "1 \<le> days_before_month (year d) (month d) + day d"
    and "days_before_month (year d) (month d) + day d \<le> (if isleap (year d) then 366 else 365)"
proof -
  have m: "1 \<le> month d" "month d \<le> 12" and dd: "1 \<le> day d" "day d \<le> days_in_month (year d) (month d)"
    using assms by (simp_all add: valid_date_def)
  have "0 \<le> days_before_month (year d) (month d)"
    by (simp add: days_before_month_def DAYS_BEFORE_MONTH_def)
  then show "1 \<le> days_before_month (year d) (month d) + day d" using dd by linarith
  have e: "days_before_month (year d) 12 + days_in_month (year d) 12 = (if isleap (year d) then 366 else 365)"
    by (simp add: days_before_month_def days_in_month_def DAYS_BEFORE_MONTH_def DAYS_IN_MONTH_def)
  show "days_before_month (year d) (month d) + day d \<le> (if isleap (year d) then 366 else 365)"
  proof (cases "month d = 12")
    case True
    then show ?thesis using e dd by simp
  next
    case False
    then have "month d < 12" using m by linarith
    from month_step_le[OF m(1) this, where y = "year d"]
    have "days_before_month (year d) (month d) + days_in_month (year d) (month d) \<le> days_before_month (year d) 12" by simp
    moreover have "0 \<le> days_in_month (year d) 12" by (simp add: days_in_month_def DAYS_IN_MONTH_def)
    ultimately show ?thesis using e dd by (simp split: if_splits)
  qed
qed

lemma toordinal_less:
  assumes "valid_date d1" "valid_date d2" "date_lex_less d1 d2"
  shows "toordinal d1 < toordinal d2"
proof -
  note b1 = day_of_year_bounds[OF assms(1)] and b2 = day_of_year_bounds[OF assms(2)]
  consider (y) "year d1 < year d2"
    | (m) "year d1 = year d2" "month d1 < month d2"
    | (d) "year d1 = year d2" "month d1 = month d2" "day d1 < day d2"
    using assms(3) unfolding date_lex_less_def by blast
  then show ?thesis
  proof cases
    case y
    have "days_before_year (year d1) + (if isleap (year d1) then 366 else 365) \<le> days_before_year (year d2)"
      using days_before_year_less[OF y] by (simp only: days_before_year_step)
    then show ?thesis unfolding toordinal_def using b1(2) b2(1) by (simp split: if_splits)
  next
    case m
    have "1 \<le> month d1" "month d2 \<le> 12" "day d1 \<le> days_in_month (year d1) (month d1)" "1 \<le> day d2"
      using assms(1,2) by (simp_all add: valid_date_def)
    with month_step_le[OF this(1) m(2) this(2), where y = "year d1"] show ?thesis
      unfolding toordinal_def m(1) by linarith
  next
    case d
    then show ?thesis unfolding toordinal_def by simp
  qed
qed

lemma date_lex_total:
  "date_lex_less d1 d2 \<or> date_lex_less d2 d1 \<or> (year d1 = year d2 \<and> month d1 = month d2 \<and> day d1 = day d2)"
  unfolding date_lex_less_def by linarith

lemma toordinal_less_iff:
  assumes "valid_date d1" "valid_date d2"
  shows "toordinal d1 < toordinal d2 \<longleftrightarrow> date_lex_less d1 d2"
proof
  assume "date_lex_less d1 d2"
  then show "toordinal d1 < toordinal d2" by (rule toordinal_less[OF assms])
next
  assume l: "toordinal d1 < toordinal d2"
  show "date_lex_less d1 d2"
  proof (rule ccontr)
    assume n: "\<not> date_lex_less d1 d2"
    from date_lex_total[of d1 d2] n consider "date_lex_less d2 d1"
      | "year d1 = year d2 \<and> month d1 = month d2 \<and> day d1 = day d2" by blast
    then show False
    proof cases
      case 1
      from toordinal_less[OF assms(2,1) this] l show False by linarith
    next
      case 2
      then have "toordinal d1 = toordinal d2" by (simp add: toordinal_def)
      with l show False by linarith
    qed
  qed
qed

lemma isoformat_le_iff:
  assumes "valid_date d1" "valid_date d2"
  shows "isoformat d1 \<le> isoformat d2 \<longleftrightarrow> toordinal d1 \<le> toordinal d2"
  using isoformat_less_iff[OF assms(2,1)] toordinal_less_iff[OF assms(2,1)]
  by (simp only: not_less[symmetric])

lemma toordinal_inj:
  fixes d1 d2 :: date
  assumes "valid_date d1" "valid_date d2" "toordinal d1 = toordinal d2"
  shows "d1 = d2"
proof -
  have "\<not> date_lex_less d1 d2" "\<not> date_lex_less d2 d1"
    using toordinal_less[OF assms(1,2)] toordinal_less[OF assms(2,1)] assms(3) by auto
  with date_lex_total[of d1 d2] show ?thesis by (simp add: date.equality)
qed

section \<open>Parsing a date back\<close>

lemma digits4:
  fixes y :: int
  assumes "0 \<le> y" "y \<le> 9999"
  shows "1000 * (y div 1000 mod 10) + 100 * (y div 100 mod 10) + 10 * (y div 10 mod 10) + y mod 10 = y"
proof -
  define a0 q1 a1 q2 a2 q3 where "a0 = y mod 10" and "q1 = y div 10" and "a1 = y div 10 mod 10"
    and "q2 = y div 100" and "a2 = y div 100 mod 10" and "q3 = y div 1000"
  have 1: "y = 10 * q1 + a0" by (simp add: q1_def a0_def)
  have 2: "q1 = 10 * q2 + a1"
    using mult_div_mod_eq[of 10 "y div 10"] by (simp only: div_div10 q1_def q2_def a1_def)
  have 3: "q2 = 10 * q3 + a2"
    using mult_div_mod_eq[of 10 "y div 100"] by (simp only: div_div10 q2_def q3_def a2_def)
  have 4: "y div 1000 mod 10 = q3" using assms by (simp add: q3_def)
  have "1000 * q3 + 100 * a2 + 10 * a1 + a0 = y" using 1 2 3 by linarith
  then show ?thesis by (simp only: 4 a0_def a1_def a2_def)
qed

lemma digits2:
  fixes y :: int
  assumes "0 \<le> y" "y \<le> 99"
  shows "10 * (y div 10 mod 10) + y mod 10 = y"
proof -
  have "y div 10 mod 10 = y div 10" using assms by simp
  then show ?thesis by (simp only: mult_div_mod_eq)
qed

lemma is_digit_digit_char: "n < 10 \<Longrightarrow> is_digit (digit_char n)"
  by (simp add: is_digit_def of_char_digit_char)

lemma digit_val_digit_char: "n < 10 \<Longrightarrow> digit_val (digit_char n) = int n"
  by (simp add: digit_val_def of_char_digit_char)

lemma is_digit_mod: "is_digit (digit_char (nat (x mod 10)))" for x :: int
  by (rule is_digit_digit_char) simp

lemma digit_val_mod: "digit_val (digit_char (nat (x mod 10))) = x mod 10" for x :: int
  by (simp add: digit_val_digit_char)

lemma number_of_pad4:
  assumes "0 \<le> y" "y \<le> 9999"
  shows "number_of (pad4 y) = y"
proof -
  have "number_of (pad4 y) = 10 * (10 * (10 * (10 * 0 + y div 1000 mod 10) + y div 100 mod 10)
      + y div 10 mod 10) + y mod 10"
    by (simp only: number_of_def pad4_def foldl.simps digit_val_mod)
  also have "\<dots> = 1000 * (y div 1000 mod 10) + 100 * (y div 100 mod 10) + 10 * (y div 10 mod 10) + y mod 10"
    by simp
  also have "\<dots> = y" by (rule digits4[OF assms])
  finally show ?thesis .
qed

lemma number_of_pad2:
  assumes "0 \<le> y" "y \<le> 99"
  shows "number_of (pad2 y) = y"
proof -
  have "number_of (pad2 y) = 10 * (10 * 0 + y div 10 mod 10) + y mod 10"
    by (simp only: number_of_def pad2_def foldl.simps digit_val_mod)
  also have "\<dots> = 10 * (y div 10 mod 10) + y mod 10"
    by (simp only: mult_zero_right add_0_left)
  also have "\<dots> = y" by (rule digits2[OF assms])
  finally show ?thesis .
qed

lemma all_digit_pad: "list_all is_digit (pad4 y)" "list_all is_digit (pad2 y)"
  by (simp_all add: pad4_def pad2_def is_digit_mod)

lemma isoformat_parts:
  "length (isoformat d) = 10" "isoformat d ! 4 = CHR ''-''" "isoformat d ! 7 = CHR ''-''"
  "take 4 (isoformat d) = pad4 (year d)"
  "take 2 (drop 5 (isoformat d)) = pad2 (month d)"
  "drop 8 (isoformat d) = pad2 (day d)"
  "take 7 (isoformat d) = pad4 (year d) @ ''-'' @ pad2 (month d)"
  by (simp_all add: isoformat_def pad4_def pad2_def)

lemma strptime_isoformat:
  assumes "valid_date d"
  shows "strptime (isoformat d) = Inr d"
proof -
  note f = valid_date_fields[OF assms]
  have "\<lparr>year = number_of (pad4 (year d)), month = number_of (pad2 (month d)),
         day = number_of (pad2 (day d))\<rparr> = d"
    using f by (simp add: number_of_pad4 number_of_pad2)
  then show ?thesis
    unfolding strptime_def isoformat_parts Let_def using assms
    by (simp add: all_digit_pad)
qed

section \<open>Day numbers of valid dates\<close>

lemma days_before_year_mono:
  assumes "y1 \<le> y2"
  shows "days_before_year y1 \<le> days_before_year y2"
  using days_before_year_mono_aux[of "y2 - y1" y1] assms by simp

lemma days_before_year_consts: "days_before_year 1 = 0" "days_before_year 10000 = 3652059"
  by (simp_all add: days_before_year_def)

lemma day_of_year_general:
  assumes "1 \<le> month d" "month d \<le> 12" "1 \<le> day d" "day d \<le> days_in_month (year d) (month d)"
  shows "1 \<le> days_before_month (year d) (month d) + day d"
    and "days_before_year (year d) + days_before_month (year d) (month d) + day d
            \<le> days_before_year (year d + 1)"
proof -
  have "0 \<le> days_before_month (year d) (month d)"
    by (simp add: days_before_month_def DAYS_BEFORE_MONTH_def)
  then show "1 \<le> days_before_month (year d) (month d) + day d" using assms(3) by linarith
  have e: "days_before_month (year d) 12 + days_in_month (year d) 12 = (if isleap (year d) then 366 else 365)"
    by (simp add: days_before_month_def days_in_month_def DAYS_BEFORE_MONTH_def DAYS_IN_MONTH_def)
  have "days_before_month (year d) (month d) + day d \<le> (if isleap (year d) then 366 else 365)"
  proof (cases "month d = 12")
    case True
    then show ?thesis using e assms(4) by simp
  next
    case False
    then have "month d < 12" using assms(2) by linarith
    from month_step_le[OF assms(1) this, where y = "year d"]
    have "days_before_month (year d) (month d) + days_in_month (year d) (month d) \<le> days_before_month (year d) 12" by simp
    moreover have "0 \<le> days_in_month (year d) 12" by (simp add: days_in_month_def DAYS_IN_MONTH_def)
    ultimately show ?thesis using e assms(4) by (simp split: if_splits)
  qed
  then show "days_before_year (year d) + days_before_month (year d) (month d) + day d
            \<le> days_before_year (year d + 1)"
    by (simp add: days_before_year_step split: if_splits)
qed

lemma toordinal_range:
  assumes "valid_date d"
  shows "1 \<le> toordinal d" "toordinal d \<le> 3652059"
proof -
  have v: "1 \<le> year d" "year d \<le> 9999" "1 \<le> month d" "month d \<le> 12" "1 \<le> day d"
    "day d \<le> days_in_month (year d) (month d)"
    using assms by (simp_all add: valid_date_def)
  note g = day_of_year_general[OF v(3-6)]
  have "0 \<le> days_before_year (year d)"
    using days_before_year_mono[OF v(1)] by (simp only: days_before_year_consts)
  then show "1 \<le> toordinal d" unfolding toordinal_def using g(1) by linarith
  have "year d + 1 \<le> 10000" using v(2) by simp
  from days_before_year_mono[OF this] have "days_before_year (year d + 1) \<le> 3652059"
    by (simp only: days_before_year_consts)
  then show "toordinal d \<le> 3652059" unfolding toordinal_def using g(2) by linarith
qed

lemma fromordinal_valid:
  assumes "1 \<le> n" "n \<le> 3652059"
  shows "valid_date (fromordinal n)" and "toordinal (fromordinal n) = n"
proof -
  define d where "d = fromordinal n"
  from fromordinal_props[OF assms(1)] have p: "toordinal d = n" "1 \<le> month d" "month d \<le> 12"
    "1 \<le> day d" "day d \<le> days_in_month (year d) (month d)"
    by (simp_all only: d_def)
  note g = day_of_year_general[OF p(2-5)]
  have y1: "1 \<le> year d"
  proof (rule ccontr)
    assume "\<not> 1 \<le> year d"
    then have "year d + 1 \<le> 1" by simp
    from days_before_year_mono[OF this] have "days_before_year (year d + 1) \<le> 0"
      by (simp only: days_before_year_consts)
    with g(2) p(1) assms(1) show False unfolding toordinal_def by linarith
  qed
  have y2: "year d \<le> 9999"
  proof (rule ccontr)
    assume "\<not> year d \<le> 9999"
    then have "10000 \<le> year d" by simp
    from days_before_year_mono[OF this] have "3652059 \<le> days_before_year (year d)"
      by (simp only: days_before_year_consts)
    with g(1) p(1) assms(2) show False unfolding toordinal_def by linarith
  qed
  show "valid_date (fromordinal n)"
    unfolding d_def[symmetric] valid_date_def using y1 y2 p by simp
  show "toordinal (fromordinal n) = n" using p(1) by (simp only: d_def)
qed

section \<open>Assignments and the position table\<close>

lemma upper_char_idem: "upper_char (upper_char c) = upper_char c"
proof (cases "97 \<le> (of_char c :: nat) \<and> (of_char c :: nat) \<le> 122")
  case True
  define k where "k = (of_char c :: nat) - 32"
  have k: "k < 97" "k < 256" using True unfolding k_def by linarith+
  have u: "upper_char c = char_of k" using True by (simp add: upper_char_def k_def)
  have "(of_char (char_of k) :: nat) = k" using k(2) by simp
  then have "upper_char (char_of k) = char_of k"
    using k(1) by (simp add: upper_char_def)
  then show ?thesis by (simp only: u)
next
  case False
  then have "upper_char c = c" unfolding upper_char_def by (rule if_not_P)
  then show ?thesis by (simp only:)
qed

lemma upper_idem: "upper (upper s) = upper s"
  by (simp add: upper_def upper_char_idem)

lemma find_map_update:
  assumes "\<And>p. pos_ticker (upd p) = pos_ticker p"
  shows "find (\<lambda>p. pos_ticker p = k) (map (\<lambda>p. if pos_id p = i then upd p else p) ps)
       = map_option (\<lambda>p. if pos_id p = i then upd p else p) (find (\<lambda>p. pos_ticker p = k) ps)"
  by (induction ps) (simp_all add: assms)

lemma find_append_cases:
  "find P (xs @ ys) = (case find P xs of None \<Rightarrow> find P ys | Some x \<Rightarrow> Some x)"
  by (induction xs) simp_all

lemma get_or_create_position_found:
  assumes "get_or_create_position db tk = (db1, p)"
  shows "get_position db1 tk = Some p" and "trades db1 = trades db"
proof -
  show "get_position db1 tk = Some p"
  proof (cases "get_position db tk")
    case (Some q)
    then show ?thesis using assms by (simp add: get_or_create_position_def)
  next
    case None
    then have "find (\<lambda>p. pos_ticker p = upper tk) (positions db) = None"
      by (simp add: get_position_def)
    then show ?thesis
      using assms None
      by (auto simp: get_or_create_position_def create_position_def get_position_def Let_def
          find_append_cases split: option.splits)
  qed
  show "trades db1 = trades db"
    using assms
    by (auto simp: get_or_create_position_def create_position_def Let_def split: option.splits)
qed

lemma get_position_update:
  assumes "get_position db tk = Some p" "shares \<noteq> None \<or> cb \<noteq> None"
  shows "get_position (update_position db (pos_id p) shares cb) tk
       = Some (p\<lparr>shares_owned := (case shares of Some s \<Rightarrow> s | None \<Rightarrow> shares_owned p),
                 cost_basis := (case cb of Some c \<Rightarrow> c | None \<Rightarrow> cost_basis p)\<rparr>)"
proof -
  have "find (\<lambda>p. pos_ticker p = upper tk) (positions db) = Some p"
    using assms(1) by (simp add: get_position_def)
  then show ?thesis
    using assms(2)
    unfolding get_position_def update_position_def
    by (auto simp: find_map_update)
qed

lemma create_trade_positions:
  assumes "get_position db tk = Some p"
  shows "positions (fst (create_trade db tk ty st pr q now)) = positions db"
  using assms by (simp add: create_trade_def get_or_create_position_def Let_def)

lemma get_position_cong: "positions db = positions db' \<Longrightarrow> get_position db tk = get_position db' tk"
  by (simp add: get_position_def)

lemma submit_assignment_position:
  assumes "upper tk \<noteq> []" and "get_or_create_position db (upper tk) = (db1, p)"
  shows "get_position (submit_assignment db tk shares cost is_put now) tk =
     Some (if is_put
           then p\<lparr>shares_owned := shares_owned p + shares,
                  cost_basis := (if shares_owned p + shares > 0
                     then (cost_basis p * real_of_int (shares_owned p) + cost * real_of_int shares)
                          / real_of_int (shares_owned p + shares)
                     else cost)\<rparr>
           else p\<lparr>shares_owned := max 0 (shares_owned p - shares)\<rparr>)"
proof -
  define tkr where "tkr = upper tk"
  have g: "get_position db tk' = get_position db tkr" if "upper tk' = tkr" for db tk'
    using that by (simp add: get_position_def tkr_def upper_idem)
  have utk: "upper tkr = tkr" by (simp add: tkr_def upper_idem)
  have p1: "get_position db1 tkr = Some p"
    using get_or_create_position_found(1)[OF assms(2)] by (simp add: tkr_def)
  define db2 where "db2 = (if is_put
      then update_position db1 (pos_id p) (Some (shares_owned p + shares))
        (Some (if shares_owned p + shares > 0
               then (cost_basis p * real_of_int (shares_owned p) + cost * real_of_int shares)
                          / real_of_int (shares_owned p + shares)
               else cost))
      else update_position db1 (pos_id p) (Some (max 0 (shares_owned p - shares))) None)"
  have sa: "submit_assignment db tk shares cost is_put now
      = fst (create_trade db2 tkr ASSIGNMENT (Some cost) 0 (shares div 100) now)"
    using assms unfolding submit_assignment_def db2_def tkr_def Let_def by simp
  have p2: "get_position db2 tkr = Some (if is_put
           then p\<lparr>shares_owned := shares_owned p + shares,
                  cost_basis := (if shares_owned p + shares > 0
                     then (cost_basis p * real_of_int (shares_owned p) + cost * real_of_int shares)
                          / real_of_int (shares_owned p + shares)
                     else cost)\<rparr>
           else p\<lparr>shares_owned := max 0 (shares_owned p - shares)\<rparr>)"
    unfolding db2_def using get_position_update[OF p1] by simp
  have "get_position (submit_assignment db tk shares cost is_put now) tk
      = get_position (fst (create_trade db2 tkr ASSIGNMENT (Some cost) 0 (shares div 100) now)) tkr"
    unfolding sa by (rule g) (simp add: tkr_def)
  also have "\<dots> = get_position db2 tkr"
    by (rule get_position_cong) (rule create_trade_positions[OF p2])
  finally show ?thesis using p2 by simp
qed

text \<open>
  Claim C8. Recording a put assignment of \<open>n\<close> shares at cost \<open>c\<close> per share on a position
  holding \<open>s0 \<ge> 0\<close> shares at cost basis \<open>b0\<close> leaves the position with \<open>s0 + n\<close> shares
  and the weighted average cost basis \<open>(b0 * s0 + c * n) / (s0 + n)\<close>, and with cost basis
  \<open>c\<close> when \<open>s0 + n = 0\<close>. The position is the one \<^verbatim>\<open>get_or_create_position\<close> finds or
  creates for the ticker.
\<close>

theorem put_assignment_weighted_average:
  assumes "upper tk \<noteq> []" and "get_or_create_position db (upper tk) = (db1, p)"
    and "0 \<le> shares_owned p" and "0 \<le> n"
  shows "get_position (submit_assignment db tk n c True now) tk =
     Some (p\<lparr>shares_owned := shares_owned p + n,
             cost_basis := (if shares_owned p + n = 0 then c
                else (cost_basis p * real_of_int (shares_owned p) + c * real_of_int n)
                     / real_of_int (shares_owned p + n))\<rparr>)"
proof -
  have "shares_owned p + n > 0 \<longleftrightarrow> shares_owned p + n \<noteq> 0"
    using assms(3,4) by linarith
  then show ?thesis
    using submit_assignment_position[OF assms(1,2), of n c True now] by simp
qed

lemma upper_ABC: "upper ''ABC'' = ''ABC''"
  by (simp add: upper_def upper_char_def)

theorem put_assignment_weighted_average_witness:
  "upper ''ABC'' \<noteq> []
   \<and> get_or_create_position \<lparr>positions = [], trades = []\<rparr> (upper ''ABC'')
       = (\<lparr>positions = [\<lparr>pos_id = 1, pos_ticker = ''ABC'', shares_owned = 0, cost_basis = 0\<rparr>],
            trades = []\<rparr>,
          \<lparr>pos_id = 1, pos_ticker = ''ABC'', shares_owned = 0, cost_basis = 0\<rparr>)
   \<and> get_position (submit_assignment \<lparr>positions = [], trades = []\<rparr> ''ABC'' 100 20 True
         \<lparr>year = 2026, month = 1, day = 6\<rparr>) ''ABC''
       = Some \<lparr>pos_id = 1, pos_ticker = ''ABC'', shares_owned = 100, cost_basis = 20\<rparr>
   \<and> get_or_create_position
         \<lparr>positions = [\<lparr>pos_id = 1, pos_ticker = ''ABC'', shares_owned = 100, cost_basis = 20\<rparr>],
          trades = []\<rparr> (upper ''ABC'')
       = (\<lparr>positions = [\<lparr>pos_id = 1, pos_ticker = ''ABC'', shares_owned = 100, cost_basis = 20\<rparr>],
            trades = []\<rparr>,
          \<lparr>pos_id = 1, pos_ticker = ''ABC'', shares_owned = 100, cost_basis = 20\<rparr>)
   \<and> get_position (submit_assignment
         \<lparr>positions = [\<lparr>pos_id = 1, pos_ticker = ''ABC'', shares_owned = 100, cost_basis = 20\<rparr>],
          trades = []\<rparr> ''ABC'' 100 30 True \<lparr>year = 2026, month = 1, day = 7\<rparr>) ''ABC''
       = Some \<lparr>pos_id = 1, pos_ticker = ''ABC'', shares_owned = 200, cost_basis = 25\<rparr>"
proof -
  let ?p0 = "\<lparr>pos_id = 1, pos_ticker = ''ABC'', shares_owned = 0, cost_basis = 0\<rparr>"
  let ?p1 = "\<lparr>pos_id = 1, pos_ticker = ''ABC'', shares_owned = 100, cost_basis = 20\<rparr>"
  have h1: "upper ''ABC'' \<noteq> []" by (simp add: upper_ABC)
  have h2: "get_or_create_position \<lparr>positions = [], trades = []\<rparr> (upper ''ABC'')
       = (\<lparr>positions = [?p0], trades = []\<rparr>, ?p0)"
    by (simp add: upper_ABC get_or_create_position_def get_position_def create_position_def
        next_id_def)
  have h3: "get_or_create_position \<lparr>positions = [?p1], trades = []\<rparr> (upper ''ABC'')
       = (\<lparr>positions = [?p1], trades = []\<rparr>, ?p1)"
    by (simp add: upper_ABC get_or_create_position_def get_position_def)
  have a: "get_position (submit_assignment \<lparr>positions = [], trades = []\<rparr> ''ABC'' 100 20 True
         \<lparr>year = 2026, month = 1, day = 6\<rparr>) ''ABC'' = Some ?p1"
    using put_assignment_weighted_average[OF h1 h2, of 100 20 "\<lparr>year = 2026, month = 1, day = 6\<rparr>"]
    by simp
  have b: "get_position (submit_assignment \<lparr>positions = [?p1], trades = []\<rparr> ''ABC'' 100 30 True
         \<lparr>year = 2026, month = 1, day = 7\<rparr>) ''ABC''
       = Some \<lparr>pos_id = 1, pos_ticker = ''ABC'', shares_owned = 200, cost_basis = 25\<rparr>"
    using put_assignment_weighted_average[OF h1 h3, of 100 30 "\<lparr>year = 2026, month = 1, day = 7\<rparr>"]
    by simp
  show ?thesis using h1 h2 h3 a b by blast
qed

text \<open>
  Claim C9. Recording a call assignment of \<open>n\<close> shares on a position holding \<open>s0\<close> shares
  leaves it with \<open>max 0 (s0 - n)\<close> shares, which is never negative, and with its cost basis
  unchanged.
\<close>

theorem call_assignment_floor_zero:
  assumes "upper tk \<noteq> []" and "get_or_create_position db (upper tk) = (db1, p)"
  shows "\<exists>p'. get_position (submit_assignment db tk n c False now) tk = Some p'
          \<and> shares_owned p' = max 0 (shares_owned p - n) \<and> 0 \<le> shares_owned p'
          \<and> cost_basis p' = cost_basis p"
  using submit_assignment_position[OF assms, of n c False now] by simp

theorem call_assignment_floor_zero_witness:
  "upper ''ABC'' \<noteq> []
   \<and> get_or_create_position
         \<lparr>positions = [\<lparr>pos_id = 1, pos_ticker = ''ABC'', shares_owned = 50, cost_basis = 20\<rparr>],
          trades = []\<rparr> (upper ''ABC'')
       = (\<lparr>positions = [\<lparr>pos_id = 1, pos_ticker = ''ABC'', shares_owned = 50, cost_basis = 20\<rparr>],
            trades = []\<rparr>,
          \<lparr>pos_id = 1, pos_ticker = ''ABC'', shares_owned = 50, cost_basis = 20\<rparr>)
   \<and> (\<exists>p'. get_position (submit_assignment
         \<lparr>positions = [\<lparr>pos_id = 1, pos_ticker = ''ABC'', shares_owned = 50, cost_basis = 20\<rparr>],
          trades = []\<rparr> ''ABC'' 100 45 False \<lparr>year = 2026, month = 1, day = 7\<rparr>) ''ABC'' = Some p'
        \<and> shares_owned p' = 0 \<and> cost_basis p' = 20)"
proof -
  let ?p1 = "\<lparr>pos_id = 1, pos_ticker = ''ABC'', shares_owned = 50, cost_basis = 20\<rparr>"
  have h1: "upper ''ABC'' \<noteq> []" by (simp add: upper_ABC)
  have h3: "get_or_create_position \<lparr>positions = [?p1], trades = []\<rparr> (upper ''ABC'')
       = (\<lparr>positions = [?p1], trades = []\<rparr>, ?p1)"
    by (simp add: upper_ABC get_or_create_position_def get_position_def)
  show ?thesis
    using h1 h3 call_assignment_floor_zero[OF h1 h3, of 100 45 "\<lparr>year = 2026, month = 1, day = 7\<rparr>"]
    by auto
qed

section \<open>The first trade date and the week number\<close>

lemma fold_min_props:
  fixes x :: "'a::linorder"
  shows "fold min xs x \<in> set (x # xs)" and "\<forall>y\<in>set (x # xs). fold min xs x \<le> y"
proof -
  have "fold min xs x \<in> set (x # xs) \<and> (\<forall>y\<in>set (x # xs). fold min xs x \<le> y)"
  proof (induction xs arbitrary: x)
    case Nil
    then show ?case by simp
  next
    case (Cons z zs)
    have m: "min z x = z \<or> min z x = x" "min z x \<le> z" "min z x \<le> x"
      by (auto simp: min_def)
    from Cons[of "min z x"] show ?case
      using m by (auto intro: order_trans)
  qed
  then show "fold min xs x \<in> set (x # xs)" and "\<forall>y\<in>set (x # xs). fold min xs x \<le> y"
    by blast+
qed

lemma sql_min_props:
  fixes xs :: "string list"
  shows "sql_min xs = None \<longleftrightarrow> xs = []"
    and "sql_min xs = Some m \<Longrightarrow> m \<in> set xs \<and> (\<forall>y\<in>set xs. m \<le> y)"
proof -
  show "sql_min xs = None \<longleftrightarrow> xs = []"
    by (cases xs) (simp_all add: sql_min_def)
  assume "sql_min xs = Some m"
  then obtain x rest where xs: "xs = x # rest" and m: "m = fold min rest x"
    by (cases xs) (auto simp: sql_min_def)
  show "m \<in> set xs \<and> (\<forall>y\<in>set xs. m \<le> y)"
    unfolding xs m using fold_min_props[where xs = rest and x = x] by blast
qed

lemma first_trade_date_none:
  assumes "\<not> list_ex is_cc_csp ledger"
  shows "get_first_trade_date ledger = Inr None"
proof -
  have "filter is_cc_csp ledger = []"
    using assms by (simp add: filter_empty_conv list_ex_iff)
  then show ?thesis by (simp add: get_first_trade_date_def sql_min_def)
qed

lemma first_trade_date_anchor:
  assumes "valid_ledger ledger" "list_ex is_cc_csp ledger"
  shows "\<exists>a. get_first_trade_date ledger = Inr (Some a) \<and> is_anchor ledger a"
proof -
  define xs where "xs = map sql_date (filter is_cc_csp ledger)"
  have "xs \<noteq> []" using assms(2) by (auto simp: xs_def filter_empty_conv list_ex_iff)
  then obtain m where m: "sql_min xs = Some m" using sql_min_props(1)[of xs] by auto
  from sql_min_props(2)[OF m] have mem: "m \<in> set xs" and le: "\<forall>y\<in>set xs. m \<le> y" by blast+
  from mem obtain t0 where t0: "t0 \<in> set ledger" "is_cc_csp t0" "m = isoformat (opened_at t0)"
    by (auto simp: xs_def sql_date_def)
  have v: "valid_date (opened_at t)" if "t \<in> set ledger" for t
    using assms(1) that by (simp add: valid_ledger_def list_all_iff)
  have "get_first_trade_date ledger = Inr (Some (opened_at t0))"
    using m t0(3) strptime_isoformat[OF v[OF t0(1)]]
    by (simp add: get_first_trade_date_def xs_def)
  moreover have "is_anchor ledger (opened_at t0)"
    unfolding is_anchor_def list_ex_iff list_all_iff
  proof (intro conjI ballI impI)
    show "\<exists>t\<in>set ledger. is_cc_csp t \<and> opened_at t = opened_at t0" using t0 by blast
    fix t assume t: "t \<in> set ledger" "is_cc_csp t"
    then have "isoformat (opened_at t) \<in> set xs" by (auto simp: xs_def sql_date_def)
    with le t0(3) have "isoformat (opened_at t0) \<le> isoformat (opened_at t)" by blast
    then show "toordinal (opened_at t0) \<le> toordinal (opened_at t)"
      by (simp only: isoformat_le_iff[OF v[OF t0(1)] v[OF t(1)]])
  qed
  ultimately show ?thesis by blast
qed

lemma is_anchor_valid:
  assumes "valid_ledger ledger" "is_anchor ledger a"
  shows "valid_date a"
  using assms by (auto simp: valid_ledger_def is_anchor_def list_all_iff list_ex_iff)

lemma is_anchor_unique:
  assumes "valid_ledger ledger" "is_anchor ledger a" "is_anchor ledger a'"
  shows "a = a'"
proof -
  have "toordinal a \<le> toordinal a'" "toordinal a' \<le> toordinal a"
    using assms(2,3) by (auto simp: is_anchor_def list_all_iff list_ex_iff)
  then have "toordinal a = toordinal a'" by linarith
  then show ?thesis
    by (rule toordinal_inj[OF is_anchor_valid[OF assms(1,2)] is_anchor_valid[OF assms(1,3)]])
qed

lemma first_trade_date_is_anchor:
  assumes "valid_ledger ledger" "is_anchor ledger a"
  shows "get_first_trade_date ledger = Inr (Some a)"
proof -
  have "list_ex is_cc_csp ledger" using assms(2) by (auto simp: is_anchor_def list_ex_iff)
  from first_trade_date_anchor[OF assms(1) this] obtain a'
    where a': "get_first_trade_date ledger = Inr (Some a')" "is_anchor ledger a'" by blast
  with is_anchor_unique[OF assms(1) a'(2) assms(2)] show ?thesis by simp
qed

lemma demo_ledger_valid: "valid_ledger demo_ledger"
  by code_simp

lemma demo_ledger_anchor: "is_anchor demo_ledger \<lparr>year = 2026, month = 1, day = 6\<rparr>"
  by code_simp

lemma anchor_exists_iff:
  assumes "valid_ledger ledger"
  shows "(\<exists>a. is_anchor ledger a) \<longleftrightarrow> list_ex is_cc_csp ledger"
  using first_trade_date_anchor[OF assms] by (auto simp: is_anchor_def list_ex_iff)

lemma week_number_anchor:
  assumes "valid_ledger ledger" "is_anchor ledger a"
  shows "get_current_week_number ledger today = Inr ((toordinal today - toordinal a) div 7 + 1)"
  by (simp add: get_current_week_number_def first_trade_date_is_anchor[OF assms] days_between_def)

lemma week_number_none:
  assumes "\<not> list_ex is_cc_csp ledger"
  shows "get_current_week_number ledger today = Inr 0"
  by (simp add: get_current_week_number_def first_trade_date_none[OF assms])

text \<open>
  Claim C3. With no anchor date (no trade of type CC or CSP) the week number is 0; with
  anchor date \<open>a\<close> it is \<open>floor ((today - a).days / 7) + 1\<close>. The numbering is 1-based (week
  1 on the anchor date itself) and goes up by exactly one every seven days, with no
  reference to the calendar year.
\<close>

theorem current_week_number_from_anchor:
  assumes "valid_ledger ledger"
  shows "(\<not> list_ex is_cc_csp ledger \<longrightarrow> get_current_week_number ledger today = Inr 0)
    \<and> (is_anchor ledger a \<longrightarrow>
         get_current_week_number ledger today = Inr ((toordinal today - toordinal a) div 7 + 1)
       \<and> (toordinal today = toordinal a \<longrightarrow> get_current_week_number ledger today = Inr 1)
       \<and> (toordinal today' = toordinal today + 7 \<longrightarrow>
            get_current_week_number ledger today'
              = Inr ((toordinal today - toordinal a) div 7 + 1 + 1)))"
proof (intro conjI impI)
  assume "\<not> list_ex is_cc_csp ledger"
  then show "get_current_week_number ledger today = Inr 0" by (rule week_number_none)
next
  assume a: "is_anchor ledger a"
  show "get_current_week_number ledger today = Inr ((toordinal today - toordinal a) div 7 + 1)"
    by (rule week_number_anchor[OF assms a])
  { assume "toordinal today = toordinal a"
    then show "get_current_week_number ledger today = Inr 1"
      by (simp add: week_number_anchor[OF assms a]) }
  { assume "toordinal today' = toordinal today + 7"
    then have "toordinal today' - toordinal a = (toordinal today - toordinal a) + 1 * 7" by simp
    then have "(toordinal today' - toordinal a) div 7 = (toordinal today - toordinal a) div 7 + 1"
      by simp
    then show "get_current_week_number ledger today'
        = Inr ((toordinal today - toordinal a) div 7 + 1 + 1)"
      by (simp add: week_number_anchor[OF assms a]) }
qed

theorem current_week_number_from_anchor_witness:
  "valid_ledger demo_ledger \<and> is_anchor demo_ledger \<lparr>year = 2026, month = 1, day = 6\<rparr>
   \<and> get_current_week_number demo_ledger \<lparr>year = 2026, month = 1, day = 15\<rparr> = Inr 2
   \<and> get_current_week_number demo_ledger \<lparr>year = 2026, month = 1, day = 22\<rparr> = Inr 3
   \<and> get_current_week_number demo_ledger \<lparr>year = 2027, month = 1, day = 5\<rparr> = Inr 53
   \<and> get_current_week_number [] \<lparr>year = 2026, month = 1, day = 15\<rparr> = Inr 0"
proof -
  have o: "toordinal \<lparr>year = 2026, month = 1, day = 6\<rparr> = 739622"
    "toordinal \<lparr>year = 2026, month = 1, day = 15\<rparr> = 739631"
    "toordinal \<lparr>year = 2026, month = 1, day = 22\<rparr> = 739638"
    "toordinal \<lparr>year = 2027, month = 1, day = 5\<rparr> = 739986"
    by (simp_all add: toordinal_def days_before_year_def days_before_month_def
        DAYS_BEFORE_MONTH_def isleap_def)
  have e: "valid_ledger []" "\<not> list_ex is_cc_csp []" by (simp_all add: valid_ledger_def)
  show ?thesis
    using demo_ledger_valid demo_ledger_anchor
      current_week_number_from_anchor[OF demo_ledger_valid,
        of "\<lparr>year = 2026, month = 1, day = 15\<rparr>" "\<lparr>year = 2026, month = 1, day = 6\<rparr>"
           "\<lparr>year = 2026, month = 1, day = 22\<rparr>"]
      current_week_number_from_anchor[OF demo_ledger_valid,
        of "\<lparr>year = 2027, month = 1, day = 5\<rparr>" "\<lparr>year = 2026, month = 1, day = 6\<rparr>"
           "\<lparr>year = 2027, month = 1, day = 5\<rparr>"]
      current_week_number_from_anchor[OF e(1), of "\<lparr>year = 2026, month = 1, day = 15\<rparr>"]
      e(2)
    by (simp add: o)
qed

section \<open>The premium summary\<close>

lemma digits10_small: "n < 10 \<Longrightarrow> digits10 n = [digit_char n]"
  by (subst digits10.simps) simp

lemma digits10_step: "10 \<le> n \<Longrightarrow> digits10 n = digits10 (n div 10) @ [digit_char (n mod 10)]"
  by (subst digits10.simps) simp

lemma digits10_four:
  assumes "1000 \<le> n" "n \<le> 9999"
  shows "digits10 n = [digit_char (n div 1000), digit_char (n div 100 mod 10),
                       digit_char (n div 10 mod 10), digit_char (n mod 10)]"
proof -
  have e: "n div 10 div 10 = n div 100" "n div 100 div 10 = n div 1000"
    by (simp_all add: div_mult2_eq[symmetric])
  have a: "10 \<le> n" "10 \<le> n div 10" "10 \<le> n div 100" "n div 1000 < 10"
    using assms by simp_all
  have 1: "digits10 n = digits10 (n div 10) @ [digit_char (n mod 10)]"
    by (rule digits10_step[OF a(1)])
  have 2: "digits10 (n div 10) = digits10 (n div 100) @ [digit_char (n div 10 mod 10)]"
    using digits10_step[OF a(2)] by (simp only: e)
  have 3: "digits10 (n div 100) = digits10 (n div 1000) @ [digit_char (n div 100 mod 10)]"
    using digits10_step[OF a(3)] by (simp only: e)
  have 4: "digits10 (n div 1000) = [digit_char (n div 1000)]"
    by (rule digits10_small[OF a(4)])
  show ?thesis by (simp only: 1 2 3 4 append.simps)
qed

lemma py_str_year:
  assumes "1000 \<le> y" "y \<le> 9999"
  shows "py_str y = pad4 y"
proof -
  define n where "n = nat y"
  have y: "y = int n" and n: "1000 \<le> n" "n \<le> 9999" using assms by (simp_all add: n_def)
  have c: "nat (int n div 1000 mod 10) = n div 1000" "nat (int n div 100 mod 10) = n div 100 mod 10"
    "nat (int n div 10 mod 10) = n div 10 mod 10" "nat (int n mod 10) = n mod 10"
    using n by (simp_all add: nat_div_distrib nat_mod_distrib)
  have "py_str y = digits10 n" using assms by (simp add: py_str_def n_def)
  also have "\<dots> = pad4 y"
    unfolding y pad4_def c by (rule digits10_four[OF n])
  finally show ?thesis .
qed

lemma strftime_Y_eq_iff:
  assumes "valid_date d" "0 \<le> y" "y \<le> 9999"
  shows "strftime_Y d = pad4 y \<longleftrightarrow> year d = y"
  unfolding strftime_Y_def isoformat_parts
  using pad4_eq_iff[OF valid_date_fields(1,2)[OF assms(1)] assms(2,3)] .

lemma strftime_Y_py_str_iff:
  assumes "valid_date d" "1000 \<le> y" "y \<le> 9999"
  shows "strftime_Y d = py_str y \<longleftrightarrow> year d = y"
  using strftime_Y_eq_iff[OF assms(1), of y] assms(2,3) by (simp add: py_str_year)

text \<open>
  Below the year 1000 the two texts differ: \<^verbatim>\<open>str\<close> gives three digits where \<^verbatim>\<open>%Y\<close> gives
  four, which is why the statements about \<open>ytd\<close> ask for an anchor year of four digits.
\<close>

lemma py_str_not_padded:
  "py_str 999 = ''999''" "strftime_Y \<lparr>year = 999, month = 1, day = 1\<rparr> = ''0999''"
  by code_simp+

lemma strftime_Y_same_iff:
  assumes "valid_date d" "valid_date d'"
  shows "strftime_Y d = strftime_Y d' \<longleftrightarrow> year d = year d'"
  using strftime_Y_eq_iff[OF assms(1) valid_date_fields(1,2)[OF assms(2)]]
  by (simp add: strftime_Y_def isoformat_parts)

lemma strftime_Ym_same_iff:
  assumes "valid_date d" "valid_date d'"
  shows "strftime_Ym d = strftime_Ym d' \<longleftrightarrow> year d = year d' \<and> month d = month d'"
proof -
  note f = valid_date_fields[OF assms(1)] and f' = valid_date_fields[OF assms(2)]
  have "strftime_Ym d = strftime_Ym d' \<longleftrightarrow>
      pad4 (year d) = pad4 (year d') \<and> pad2 (month d) = pad2 (month d')"
    unfolding strftime_Ym_def isoformat_parts by (simp add: length_pad)
  then show ?thesis
    using pad4_eq_iff[OF f(1,2) f'(1,2)] pad2_eq_iff[OF f(3,4) f'(3,4)] by simp
qed

lemma week_start_range:
  fixes A T :: int
  defines "ws \<equiv> A + (T - A) div 7 * 7"
  shows "ws \<le> T" "T < ws + 7"
proof -
  define k r where "k = (T - A) div 7" and "r = (T - A) mod 7"
  have "T - A = 7 * k + r" "0 \<le> r" "r < 7" by (simp_all add: k_def r_def)
  moreover have "ws = A + k * 7" by (simp add: ws_def k_def)
  ultimately show "ws \<le> T" "T < ws + 7" by linarith+
qed

lemma no_counted:
  assumes "\<not> list_ex is_cc_csp ledger"
  shows "filter (\<lambda>t. counted t \<and> P t) ledger = []" "filter counted ledger = []"
  using assms by (auto simp: filter_empty_conv list_ex_iff counted_def)

lemma summary_none:
  assumes "\<not> list_ex is_cc_csp ledger"
  shows "get_premium_summary ledger today now =
     Inr \<lparr>week = 0, week_number = 0, month_premium = 0, ytd = 0, yearly = [], projected = 0,
           first_trade_date = None\<rparr>"
  by (simp add: get_premium_summary_def first_trade_date_none[OF assms]
      week_number_none[OF assms] no_counted[OF assms] sum_premium_def yearly_rows_def Let_def)

lemma week_start_date:
  assumes "valid_date a" "valid_date today" "7 \<le> toordinal today"
  shows "date_add_days a (days_between today a div 7 * 7)
           = Inr (fromordinal (week_start_ordinal a today))"
    and "valid_date (fromordinal (week_start_ordinal a today))"
    and "toordinal (fromordinal (week_start_ordinal a today)) = week_start_ordinal a today"
proof -
  define ws where "ws = toordinal a + (toordinal today - toordinal a) div 7 * 7"
  have e: "week_start_ordinal a today = ws" by (simp add: week_start_ordinal_def ws_def)
  have "ws \<le> toordinal today" "toordinal today < ws + 7"
    unfolding ws_def by (rule week_start_range)+
  with assms(3) toordinal_range(2)[OF assms(2)] have r: "1 \<le> ws" "ws \<le> 3652059" by linarith+
  show "date_add_days a (days_between today a div 7 * 7)
           = Inr (fromordinal (week_start_ordinal a today))"
    unfolding e using r by (simp add: date_add_days_def days_between_def ws_def Let_def)
  show "valid_date (fromordinal (week_start_ordinal a today))"
    unfolding e by (rule fromordinal_valid(1)[OF r])
  show "toordinal (fromordinal (week_start_ordinal a today)) = week_start_ordinal a today"
    unfolding e by (rule fromordinal_valid(2)[OF r])
qed

lemma summary_anchor:
  assumes "valid_ledger ledger" "is_anchor ledger a" "valid_date today" "7 \<le> toordinal today"
    and that: "ytd_of = sum_premium (filter (\<lambda>t. counted t
               \<and> strftime_Y (opened_at t) = py_str (year a)) ledger)"
  shows "get_premium_summary ledger today now =
     Inr \<lparr>week = sum_premium (filter (\<lambda>t. counted t
               \<and> week_start_ordinal a today \<le> toordinal (opened_at t)) ledger),
           week_number = (toordinal today - toordinal a) div 7 + 1,
           month_premium = sum_premium (filter (\<lambda>t. counted t
               \<and> strftime_Ym (opened_at t) = strftime_Ym now) ledger),
           ytd = sum_premium (filter (\<lambda>t. counted t
               \<and> strftime_Y (opened_at t) = py_str (year a)) ledger),
           yearly = fold (\<lambda>(y, total) d. dict_set d y total) (yearly_rows ledger) [],
           projected =
             (if year a = year today
              then (if toordinal today - toordinal a + 1 > 0
                    then ytd_of / real_of_int (toordinal today - toordinal a + 1)
                         * real_of_int (toordinal today - toordinal a + 1
                             + (toordinal \<lparr>year = year today, month = 12, day = 31\<rparr>
                                  - toordinal today))
                    else 0)
              else (if toordinal today - toordinal (today\<lparr>month := 1, day := 1\<rparr>) + 1 > 0
                    then ytd_of / real_of_int (toordinal today
                             - toordinal (today\<lparr>month := 1, day := 1\<rparr>) + 1)
                         * real_of_int (if isleap (year today) then 366 else 365)
                    else 0)),
           first_trade_date = Some a\<rparr>"
proof -
  note ws = week_start_date[OF is_anchor_valid[OF assms(1,2)] assms(3,4)]
  have v: "valid_date (opened_at t)" if "t \<in> set ledger" for t
    using assms(1) that by (simp add: valid_ledger_def list_all_iff)
  have wk: "filter (\<lambda>t. counted t \<and> isoformat (fromordinal (week_start_ordinal a today)) \<le> sql_date t) ledger
      = filter (\<lambda>t. counted t \<and> week_start_ordinal a today \<le> toordinal (opened_at t)) ledger"
    by (rule filter_cong[OF refl])
      (simp add: sql_date_def isoformat_le_iff[OF ws(2) v] ws(3))
  show ?thesis
    by (simp only: get_premium_summary_def first_trade_date_is_anchor[OF assms(1,2)]
        week_number_anchor[OF assms(1,2)] Let_def sum.case option.case ws(1) wk)
      (simp add: days_between_def that)
qed

lemma counted_iff: "counted t \<longleftrightarrow> (trade_type t = CC \<or> trade_type t = CSP) \<and> status t \<noteq> OPEN"
  by (simp add: counted_def is_cc_csp_def)

lemma no_cc_csp_iff:
  "(\<forall>t\<in>set ledger. trade_type t \<noteq> CC \<and> trade_type t \<noteq> CSP) \<longleftrightarrow> \<not> list_ex is_cc_csp ledger"
  by (auto simp: list_ex_iff is_cc_csp_def)

lemma demo_ordinals:
  "toordinal \<lparr>year = 2026, month = 1, day = 2\<rparr> = 739618"
  "toordinal \<lparr>year = 2026, month = 1, day = 6\<rparr> = 739622"
  "toordinal \<lparr>year = 2026, month = 1, day = 7\<rparr> = 739623"
  "toordinal \<lparr>year = 2026, month = 1, day = 9\<rparr> = 739625"
  "toordinal \<lparr>year = 2026, month = 1, day = 14\<rparr> = 739630"
  "toordinal \<lparr>year = 2026, month = 1, day = 15\<rparr> = 739631"
  "toordinal \<lparr>year = 2026, month = 12, day = 31\<rparr> = 739981"
  by (simp_all add: toordinal_def days_before_year_def days_before_month_def
      DAYS_BEFORE_MONTH_def isleap_def)

lemma demo_today_valid:
  "valid_date \<lparr>year = 2026, month = 1, day = 15\<rparr>" "valid_date \<lparr>year = 2026, month = 1, day = 2\<rparr>"
  by (simp_all add: valid_date_def days_in_month_def DAYS_IN_MONTH_def)

text \<open>
  Claim C5. On a ledger with no trade of type CC or CSP, the empty ledger included, the
  first trade date is undefined, the week number is 0, and the premium summary is returned
  (no error is raised) with \<open>ytd\<close> and \<open>projected\<close> equal to 0.
\<close>

theorem no_cc_csp_trades_zero:
  assumes "\<forall>t\<in>set ledger. trade_type t \<noteq> CC \<and> trade_type t \<noteq> CSP"
  shows "get_first_trade_date ledger = Inr None
    \<and> get_current_week_number ledger today = Inr 0
    \<and> (\<exists>s. get_premium_summary ledger today now = Inr s \<and> ytd s = 0 \<and> projected s = 0)"
proof -
  have n: "\<not> list_ex is_cc_csp ledger" using assms no_cc_csp_iff[of ledger] by blast
  show ?thesis
    by (simp add: first_trade_date_none[OF n] week_number_none[OF n] summary_none[OF n])
qed

theorem no_cc_csp_trades_zero_witness:
  "list_all (\<lambda>t. trade_type t \<noteq> CC \<and> trade_type t \<noteq> CSP) (drop 4 demo_ledger)
   \<and> drop 4 demo_ledger \<noteq> []
   \<and> get_first_trade_date (drop 4 demo_ledger) = Inr None
   \<and> get_current_week_number (drop 4 demo_ledger) \<lparr>year = 2026, month = 1, day = 15\<rparr> = Inr 0
   \<and> (\<exists>s. get_premium_summary (drop 4 demo_ledger) \<lparr>year = 2026, month = 1, day = 15\<rparr>
             \<lparr>year = 2026, month = 1, day = 15\<rparr> = Inr s \<and> ytd s = 0 \<and> projected s = 0)"
proof -
  have h: "\<forall>t\<in>set (drop 4 demo_ledger). trade_type t \<noteq> CC \<and> trade_type t \<noteq> CSP"
    by (simp add: demo_ledger_def)
  have "drop 4 demo_ledger \<noteq> []" by (simp add: demo_ledger_def)
  with h no_cc_csp_trades_zero[OF h] show ?thesis by (simp only: list_all_iff) blast
qed

text \<open>
  Claim C2. With anchor date \<open>a\<close>, \<open>week\<close> is the sum of \<open>premium * quantity * 100\<close> over
  the trades of type CC or CSP with status other than OPEN whose \<open>opened_at\<close> date is on or
  after \<open>a + 7 * floor ((today - a).days / 7)\<close>; with no anchor the lower bound is \<open>today\<close>.
  Dates are compared by their day numbers. The summary is returned for every \<open>today\<close> from
  7 January of year 1 on.
\<close>

theorem week_premium_window:
  assumes "valid_ledger ledger" and "valid_date today" and "7 \<le> toordinal today"
  shows "(is_anchor ledger a \<longrightarrow>
           (\<exists>s. get_premium_summary ledger today now = Inr s
              \<and> week s = sum_list (map (\<lambda>t. premium t * real_of_int (quantity t) * 100)
                   (filter (\<lambda>t. (trade_type t = CC \<or> trade_type t = CSP) \<and> status t \<noteq> OPEN
                       \<and> toordinal a + 7 * ((toordinal today - toordinal a) div 7)
                           \<le> toordinal (opened_at t)) ledger))))
    \<and> (\<not> (\<exists>a. is_anchor ledger a) \<longrightarrow>
           (\<exists>s. get_premium_summary ledger today now = Inr s
              \<and> week s = sum_list (map (\<lambda>t. premium t * real_of_int (quantity t) * 100)
                   (filter (\<lambda>t. (trade_type t = CC \<or> trade_type t = CSP) \<and> status t \<noteq> OPEN
                       \<and> toordinal today \<le> toordinal (opened_at t)) ledger))))"
proof (intro conjI impI)
  assume a: "is_anchor ledger a"
  show "\<exists>s. get_premium_summary ledger today now = Inr s
      \<and> week s = sum_list (map (\<lambda>t. premium t * real_of_int (quantity t) * 100)
           (filter (\<lambda>t. (trade_type t = CC \<or> trade_type t = CSP) \<and> status t \<noteq> OPEN
               \<and> toordinal a + 7 * ((toordinal today - toordinal a) div 7)
                   \<le> toordinal (opened_at t)) ledger))"
    by (simp add: summary_anchor[OF assms(1) a assms(2,3) refl] sum_premium_def
        week_start_ordinal_def counted_iff realized_def[abs_def])
next
  assume "\<not> (\<exists>a. is_anchor ledger a)"
  then have n: "\<not> list_ex is_cc_csp ledger" using anchor_exists_iff[OF assms(1)] by blast
  then have "filter (\<lambda>t. counted t \<and> toordinal today \<le> toordinal (opened_at t)) ledger = []"
    by (rule no_counted(1))
  then show "\<exists>s. get_premium_summary ledger today now = Inr s
      \<and> week s = sum_list (map (\<lambda>t. premium t * real_of_int (quantity t) * 100)
           (filter (\<lambda>t. (trade_type t = CC \<or> trade_type t = CSP) \<and> status t \<noteq> OPEN
               \<and> toordinal today \<le> toordinal (opened_at t)) ledger))"
    by (simp add: summary_none[OF n] counted_iff)
qed

theorem week_premium_window_witness:
  "valid_ledger demo_ledger \<and> valid_date \<lparr>year = 2026, month = 1, day = 15\<rparr>
   \<and> 7 \<le> toordinal \<lparr>year = 2026, month = 1, day = 15\<rparr>
   \<and> is_anchor demo_ledger \<lparr>year = 2026, month = 1, day = 6\<rparr>
   \<and> (\<exists>s. get_premium_summary demo_ledger \<lparr>year = 2026, month = 1, day = 9\<rparr>
             \<lparr>year = 2026, month = 1, day = 9\<rparr> = Inr s \<and> week s = 218)
   \<and> (\<exists>s. get_premium_summary demo_ledger \<lparr>year = 2026, month = 1, day = 15\<rparr>
             \<lparr>year = 2026, month = 1, day = 15\<rparr> = Inr s \<and> week s = 0)"
proof -
  have o9: "valid_date \<lparr>year = 2026, month = 1, day = 9\<rparr>"
    by (simp add: valid_date_def days_in_month_def DAYS_IN_MONTH_def)
  have g9: "7 \<le> toordinal \<lparr>year = 2026, month = 1, day = 9\<rparr>"
    and g15: "7 \<le> toordinal \<lparr>year = 2026, month = 1, day = 15\<rparr>"
    by (simp_all add: demo_ordinals)
  show ?thesis
    using demo_ledger_valid demo_today_valid(1) g15 demo_ledger_anchor
      week_premium_window[OF demo_ledger_valid o9 g9,
        of "\<lparr>year = 2026, month = 1, day = 6\<rparr>" "\<lparr>year = 2026, month = 1, day = 9\<rparr>"]
      week_premium_window[OF demo_ledger_valid demo_today_valid(1) g15,
        of "\<lparr>year = 2026, month = 1, day = 6\<rparr>" "\<lparr>year = 2026, month = 1, day = 15\<rparr>"]
    by (simp add: demo_ordinals demo_ledger_def)
qed

lemma ytd_filter_anchor:
  assumes "valid_ledger ledger" "1000 \<le> y" "y \<le> 9999"
  shows "filter (\<lambda>t. counted t \<and> strftime_Y (opened_at t) = py_str y) ledger
       = filter (\<lambda>t. (trade_type t = CC \<or> trade_type t = CSP) \<and> status t \<noteq> OPEN
                    \<and> year (opened_at t) = y) ledger"
proof (rule filter_cong[OF refl])
  fix t assume "t \<in> set ledger"
  then have "valid_date (opened_at t)" using assms(1) by (simp add: valid_ledger_def list_all_iff)
  from strftime_Y_py_str_iff[OF this assms(2,3)]
  show "(counted t \<and> strftime_Y (opened_at t) = py_str y)
      = ((trade_type t = CC \<or> trade_type t = CSP) \<and> status t \<noteq> OPEN \<and> year (opened_at t) = y)"
    by (simp add: counted_iff)
qed

text \<open>
  Claim C4. With anchor date \<open>a\<close>, \<open>ytd\<close> is the sum of \<open>premium * quantity * 100\<close> over the
  trades of type CC or CSP with status other than OPEN opened in the year of \<open>a\<close> (the
  trading year, not the calendar year of \<open>today\<close>); with no anchor, over those opened in the
  year of \<open>today\<close>. Years have four digits, from 1000 on, as the comparison of
  \<^verbatim>\<open>strftime('%Y', opened_at)\<close> with \<^verbatim>\<open>str(start_year)\<close> needs.
\<close>

theorem ytd_trading_year:
  assumes "valid_ledger ledger" and "valid_date today" and "7 \<le> toordinal today"
  shows "(is_anchor ledger a \<and> 1000 \<le> year a \<longrightarrow>
           (\<exists>s. get_premium_summary ledger today now = Inr s
              \<and> ytd s = sum_list (map (\<lambda>t. premium t * real_of_int (quantity t) * 100)
                   (filter (\<lambda>t. (trade_type t = CC \<or> trade_type t = CSP) \<and> status t \<noteq> OPEN
                       \<and> year (opened_at t) = year a) ledger))))
    \<and> (\<not> (\<exists>a. is_anchor ledger a) \<longrightarrow>
           (\<exists>s. get_premium_summary ledger today now = Inr s
              \<and> ytd s = sum_list (map (\<lambda>t. premium t * real_of_int (quantity t) * 100)
                   (filter (\<lambda>t. (trade_type t = CC \<or> trade_type t = CSP) \<and> status t \<noteq> OPEN
                       \<and> year (opened_at t) = year today) ledger))))"
proof (intro conjI impI)
  assume "is_anchor ledger a \<and> 1000 \<le> year a"
  then have a: "is_anchor ledger a" and y: "1000 \<le> year a" by blast+
  have "year a \<le> 9999" using is_anchor_valid[OF assms(1) a] by (simp add: valid_date_def)
  note f = ytd_filter_anchor[OF assms(1) y this]
  show "\<exists>s. get_premium_summary ledger today now = Inr s
      \<and> ytd s = sum_list (map (\<lambda>t. premium t * real_of_int (quantity t) * 100)
           (filter (\<lambda>t. (trade_type t = CC \<or> trade_type t = CSP) \<and> status t \<noteq> OPEN
               \<and> year (opened_at t) = year a) ledger))"
    by (simp add: summary_anchor[OF assms(1) a assms(2,3) refl] f sum_premium_def
        realized_def[abs_def])
next
  assume "\<not> (\<exists>a. is_anchor ledger a)"
  then have n: "\<not> list_ex is_cc_csp ledger" using anchor_exists_iff[OF assms(1)] by blast
  then have "filter (\<lambda>t. counted t \<and> year (opened_at t) = year today) ledger = []"
    by (rule no_counted(1))
  then show "\<exists>s. get_premium_summary ledger today now = Inr s
      \<and> ytd s = sum_list (map (\<lambda>t. premium t * real_of_int (quantity t) * 100)
           (filter (\<lambda>t. (trade_type t = CC \<or> trade_type t = CSP) \<and> status t \<noteq> OPEN
               \<and> year (opened_at t) = year today) ledger))"
    by (simp add: summary_none[OF n] counted_iff)
qed

theorem ytd_trading_year_witness:
  "valid_ledger demo_ledger \<and> valid_date \<lparr>year = 2027, month = 2, day = 1\<rparr>
   \<and> 7 \<le> toordinal \<lparr>year = 2027, month = 2, day = 1\<rparr>
   \<and> is_anchor demo_ledger \<lparr>year = 2026, month = 1, day = 6\<rparr>
   \<and> 1000 \<le> year \<lparr>year = 2026, month = 1, day = 6\<rparr>
   \<and> (\<exists>s. get_premium_summary demo_ledger \<lparr>year = 2027, month = 2, day = 1\<rparr>
             \<lparr>year = 2027, month = 2, day = 1\<rparr> = Inr s \<and> ytd s = 218)"
proof -
  have v: "valid_date \<lparr>year = 2027, month = 2, day = 1\<rparr>"
    by (simp add: valid_date_def days_in_month_def DAYS_IN_MONTH_def)
  have g: "7 \<le> toordinal \<lparr>year = 2027, month = 2, day = 1\<rparr>"
    by (simp add: toordinal_def days_before_year_def days_before_month_def
        DAYS_BEFORE_MONTH_def isleap_def)
  show ?thesis
    using demo_ledger_valid v g demo_ledger_anchor
      ytd_trading_year[OF demo_ledger_valid v g,
        of "\<lparr>year = 2026, month = 1, day = 6\<rparr>" "\<lparr>year = 2027, month = 2, day = 1\<rparr>"]
    by (simp add: demo_ledger_def)
qed

lemma day_of_year_eq:
  "toordinal today - toordinal (today\<lparr>month := 1, day := 1\<rparr>) + 1
     = days_before_month (year today) (month today) + day today"
  by (simp add: toordinal_def days_before_month_def DAYS_BEFORE_MONTH_def)

text \<open>
  Claim C1, as the code has it. When the anchor date \<open>a\<close> is in the year of \<open>today\<close>, with
  \<open>d = (today - a).days + 1\<close> and \<open>r = (Dec 31 - today).days\<close>, \<open>projected\<close> is
  \<open>ytd / d * (d + r)\<close> if \<open>d > 0\<close> and 0 if \<open>d \<le> 0\<close> (an anchor after \<open>today\<close>). Otherwise
  \<open>projected\<close> is \<open>ytd / e * y\<close> with \<open>e\<close> the day of the year of \<open>today\<close>, which is at least
  1, and \<open>y\<close> 366 in leap years and 365 in others; no division by zero is reached.
\<close>

theorem projected_year_end:
  assumes "valid_ledger ledger" and "valid_date today" and "7 \<le> toordinal today"
  shows "\<exists>s. get_premium_summary ledger today now = Inr s
    \<and> (is_anchor ledger a \<and> year a = year today \<longrightarrow>
         projected s =
           (let d = toordinal today - toordinal a + 1;
                r = toordinal \<lparr>year = year today, month = 12, day = 31\<rparr> - toordinal today
            in if 0 < d then ytd s / real_of_int d * real_of_int (d + r) else 0))
    \<and> (\<not> (\<exists>a'. is_anchor ledger a' \<and> year a' = year today) \<longrightarrow>
         (let e = days_before_month (year today) (month today) + day today;
              y = (if isleap (year today) then 366 else 365)
          in 1 \<le> e \<and> projected s = ytd s / real_of_int e * real_of_int y))"
proof -
  have e1: "1 \<le> days_before_month (year today) (month today) + day today"
    by (rule day_of_year_bounds(1)[OF assms(2)])
  show ?thesis
  proof (cases "list_ex is_cc_csp ledger")
    case False
    then have na: "\<not> is_anchor ledger a" by (auto simp: is_anchor_def list_ex_iff)
    show ?thesis using e1 na by (simp add: summary_none[OF False] Let_def)
  next
    case True
    then obtain a0 where a0: "is_anchor ledger a0"
      using anchor_exists_iff[OF assms(1)] by blast
    have u: "a' = a0" if "is_anchor ledger a'" for a'
      using is_anchor_unique[OF assms(1) that a0] .
    note s = summary_anchor[OF assms(1) a0 assms(2,3) refl, of now]
    show ?thesis
    proof (cases "year a0 = year today")
      case y: True
      have "\<exists>a'. is_anchor ledger a' \<and> year a' = year today" using a0 y by blast
      then show ?thesis
        using y u[of a] by (auto simp: s Let_def)
    next
      case y: False
      have n: "\<not> (is_anchor ledger a \<and> year a = year today)" using u[of a] y by blast
      show ?thesis
        using y n e1 by (auto simp: s Let_def day_of_year_eq dest: u)
    qed
  qed
qed

theorem projected_year_end_witness:
  "valid_ledger demo_ledger \<and> valid_date \<lparr>year = 2026, month = 1, day = 15\<rparr>
   \<and> 7 \<le> toordinal \<lparr>year = 2026, month = 1, day = 15\<rparr>
   \<and> is_anchor demo_ledger \<lparr>year = 2026, month = 1, day = 6\<rparr>
   \<and> year \<lparr>year = 2026, month = 1, day = 6\<rparr> = year \<lparr>year = 2026, month = 1, day = 15\<rparr>
   \<and> (\<exists>s. get_premium_summary demo_ledger \<lparr>year = 2026, month = 1, day = 15\<rparr>
             \<lparr>year = 2026, month = 1, day = 15\<rparr> = Inr s
          \<and> projected s = ytd s / 10 * 360)"
proof -
  have g: "7 \<le> toordinal \<lparr>year = 2026, month = 1, day = 15\<rparr>" by (simp add: demo_ordinals)
  show ?thesis
    using demo_ledger_valid demo_today_valid(1) g demo_ledger_anchor
      projected_year_end[OF demo_ledger_valid demo_today_valid(1) g,
        of "\<lparr>year = 2026, month = 1, day = 15\<rparr>" "\<lparr>year = 2026, month = 1, day = 6\<rparr>"]
    by (auto simp: demo_ordinals Let_def)
qed

text \<open>
  The claim as stated gives \<open>ytd / d * (d + r)\<close> whenever the divisor is not 0. On
  2 January 2026, with the anchor on 6 January 2026, \<open>d = -3\<close> and \<open>r = 363\<close>: the formula
  gives a negative amount and the code returns 0.
\<close>

theorem projected_formula_counterexample:
  "is_anchor demo_ledger \<lparr>year = 2026, month = 1, day = 6\<rparr>
   \<and> year \<lparr>year = 2026, month = 1, day = 6\<rparr> = year \<lparr>year = 2026, month = 1, day = 2\<rparr>
   \<and> toordinal \<lparr>year = 2026, month = 1, day = 2\<rparr>
         - toordinal \<lparr>year = 2026, month = 1, day = 6\<rparr> + 1 \<noteq> 0
   \<and> projected (projr (get_premium_summary demo_ledger \<lparr>year = 2026, month = 1, day = 2\<rparr>
                          \<lparr>year = 2026, month = 1, day = 2\<rparr>))
     \<noteq> ytd (projr (get_premium_summary demo_ledger \<lparr>year = 2026, month = 1, day = 2\<rparr>
                          \<lparr>year = 2026, month = 1, day = 2\<rparr>))
         / real_of_int (toordinal \<lparr>year = 2026, month = 1, day = 2\<rparr>
                          - toordinal \<lparr>year = 2026, month = 1, day = 6\<rparr> + 1)
         * real_of_int ((toordinal \<lparr>year = 2026, month = 1, day = 2\<rparr>
                          - toordinal \<lparr>year = 2026, month = 1, day = 6\<rparr> + 1)
                        + (toordinal \<lparr>year = 2026, month = 12, day = 31\<rparr>
                             - toordinal \<lparr>year = 2026, month = 1, day = 2\<rparr>))"
proof -
  have g: "7 \<le> toordinal \<lparr>year = 2026, month = 1, day = 2\<rparr>" by (simp add: demo_ordinals)
  have y: "1000 \<le> year \<lparr>year = 2026, month = 1, day = 6\<rparr>"
    "year \<lparr>year = 2026, month = 1, day = 6\<rparr> \<le> 9999" by simp_all
  note s = summary_anchor[OF demo_ledger_valid demo_ledger_anchor demo_today_valid(2) g refl,
      of "\<lparr>year = 2026, month = 1, day = 2\<rparr>"]
  have "sum_premium (filter (\<lambda>t. counted t \<and> strftime_Y (opened_at t)
            = py_str (year \<lparr>year = 2026, month = 1, day = 6\<rparr>)) demo_ledger) = 218"
    unfolding ytd_filter_anchor[OF demo_ledger_valid y]
    by (simp add: demo_ledger_def sum_premium_def realized_def)
  then show ?thesis
    using demo_ledger_anchor by (simp add: s demo_ordinals)
qed

section \<open>The yearly totals\<close>

text \<open>
  The dictionary \<open>yearly\<close> holds the rows of the yearly query as they come, one for each
  year. In exact arithmetic the totals of the years add up to the total of all trades of
  type CC or CSP with status other than OPEN. This is a fact of the exact amounts only: the
  code adds doubles, once within each year and once over all rows, and the two results
  can differ in the last digits.
\<close>

lemma dict_set_fresh: "k \<notin> fst ` set d \<Longrightarrow> dict_set d k v = d @ [(k, v)]"
  by (induction d) auto

lemma fold_dict_set:
  assumes "distinct (map fst rows)" "fst ` set rows \<inter> fst ` set acc = {}"
  shows "fold (\<lambda>(y, total) d. dict_set d y total) rows acc = acc @ rows"
  using assms
proof (induction rows arbitrary: acc)
  case Nil
  then show ?case by simp
next
  case (Cons r rows)
  obtain k v where r: "r = (k, v)" by (cases r)
  have f: "k \<notin> fst ` set acc" using Cons.prems(2) by (auto simp: r)
  have "fold (\<lambda>(y, total) d. dict_set d y total) (r # rows) acc
      = fold (\<lambda>(y, total) d. dict_set d y total) rows (acc @ [(k, v)])"
    by (simp add: r dict_set_fresh[OF f])
  also have "\<dots> = (acc @ [(k, v)]) @ rows"
  proof (rule Cons.IH)
    show "distinct (map fst rows)" using Cons.prems(1) by simp
    show "fst ` set rows \<inter> fst ` set (acc @ [(k, v)]) = {}"
      using Cons.prems by (auto simp: r rev_image_eqI)
  qed
  finally show ?case by (simp add: r)
qed

lemma group_sum:
  fixes f :: "'a \<Rightarrow> real"
  assumes "finite K" "key ` set rows \<subseteq> K"
  shows "(\<Sum>k\<in>K. sum_list (map f (filter (\<lambda>t. key t = k) rows))) = sum_list (map f rows)"
  using assms(2)
proof (induction rows)
  case Nil
  then show ?case by simp
next
  case (Cons r rows)
  have k: "key r \<in> K" and sub: "key ` set rows \<subseteq> K" using Cons.prems by auto
  have "(\<Sum>k\<in>K. sum_list (map f (filter (\<lambda>t. key t = k) (r # rows))))
      = (\<Sum>k\<in>K. (if k = key r then f r else 0) + sum_list (map f (filter (\<lambda>t. key t = k) rows)))"
    by (rule sum.cong) auto
  also have "\<dots> = (\<Sum>k\<in>K. if k = key r then f r else 0)
      + (\<Sum>k\<in>K. sum_list (map f (filter (\<lambda>t. key t = k) rows)))"
    by (rule sum.distrib)
  also have "(\<Sum>k\<in>K. if k = key r then f r else 0) = f r"
    using assms(1) k by (simp add: sum.delta)
  finally show ?case using Cons.IH[OF sub] by simp
qed

lemma yearly_rows_keys:
  "map fst (yearly_rows ledger)
     = rev (sort (remdups (map (\<lambda>t. strftime_Y (opened_at t)) (filter counted ledger))))"
  by (simp add: yearly_rows_def Let_def comp_def)

lemma yearly_rows_distinct: "distinct (map fst (yearly_rows ledger))"
  by (simp add: yearly_rows_keys)

lemma yearly_dict: "fold (\<lambda>(y, total) d. dict_set d y total) (yearly_rows ledger) [] = yearly_rows ledger"
  using fold_dict_set[OF yearly_rows_distinct, of ledger "[]"] by simp

lemma yearly_rows_sum:
  "sum_list (map snd (yearly_rows ledger)) = sum_premium (filter counted ledger)"
proof -
  define rows where "rows = filter counted ledger"
  define key :: "trade \<Rightarrow> string" where "key = (\<lambda>t. strftime_Y (opened_at t))"
  define ys where "ys = rev (sort (remdups (map key rows)))"
  have d: "distinct ys" and s: "set ys = key ` set rows" by (simp_all add: ys_def)
  have "sum_list (map snd (yearly_rows ledger))
      = sum_list (map (\<lambda>y. sum_list (map realized (filter (\<lambda>t. key t = y) rows))) ys)"
    by (simp add: yearly_rows_def Let_def comp_def rows_def key_def ys_def sum_premium_def)
  also have "\<dots> = (\<Sum>y\<in>set ys. sum_list (map realized (filter (\<lambda>t. key t = y) rows)))"
    by (rule sum_list_distinct_conv_sum_set[OF d])
  also have "\<dots> = sum_list (map realized rows)"
    by (rule group_sum) (simp_all add: s)
  finally show ?thesis by (simp add: sum_premium_def rows_def)
qed

section \<open>Trades that carry no premium\<close>

lemma first_trade_date_frame:
  assumes "\<not> is_cc_csp t"
  shows "get_first_trade_date (xs @ t # ys) = get_first_trade_date (xs @ ys)"
  using assms by (simp add: get_first_trade_date_def)

lemma week_number_frame:
  assumes "\<not> is_cc_csp t"
  shows "get_current_week_number (xs @ t # ys) today = get_current_week_number (xs @ ys) today"
  by (simp add: get_current_week_number_def first_trade_date_frame[OF assms])

lemma yearly_rows_frame:
  assumes "\<not> is_cc_csp t"
  shows "yearly_rows (xs @ t # ys) = yearly_rows (xs @ ys)"
  using assms by (simp add: yearly_rows_def counted_def)

lemma counted_filter_frame:
  assumes "\<not> is_cc_csp t"
  shows "filter (\<lambda>t. counted t \<and> P t) (xs @ t # ys) = filter (\<lambda>t. counted t \<and> P t) (xs @ ys)"
  using assms by (simp add: counted_def)

lemma premium_summary_frame:
  assumes "\<not> is_cc_csp t"
  shows "get_premium_summary (xs @ t # ys) today now = get_premium_summary (xs @ ys) today now"
  unfolding get_premium_summary_def
  by (simp only: first_trade_date_frame[OF assms] week_number_frame[OF assms]
      yearly_rows_frame[OF assms] counted_filter_frame[OF assms])

lemma top_performers_frame:
  assumes "\<not> is_cc_csp t"
  shows "get_top_performers arrange (xs @ t # ys) period limit now
       = get_top_performers arrange (xs @ ys) period limit now"
  unfolding get_top_performers_def
  by (simp only: counted_filter_frame[OF assms] Let_def)

lemma update_position_trades: "trades (update_position db i s c) = trades db"
  by (simp add: update_position_def)

lemma submit_assignment_trades:
  assumes "upper tk \<noteq> []"
  shows "\<exists>tr. trades (submit_assignment db tk shares cost is_put now) = trades db @ [tr]
           \<and> trade_type tr = ASSIGNMENT \<and> premium tr = 0 \<and> quantity tr = shares div 100"
proof -
  obtain db1 p where g: "get_or_create_position db (upper tk) = (db1, p)"
    by (cases "get_or_create_position db (upper tk)")
  note t1 = get_or_create_position_found(2)[OF g]
  define db2 where "db2 = (if is_put
      then update_position db1 (pos_id p) (Some (shares_owned p + shares))
        (Some (if shares_owned p + shares > 0
               then (cost_basis p * real_of_int (shares_owned p) + cost * real_of_int shares)
                          / real_of_int (shares_owned p + shares)
               else cost))
      else update_position db1 (pos_id p) (Some (max 0 (shares_owned p - shares))) None)"
  have t2: "trades db2 = trades db" by (simp add: db2_def update_position_trades t1)
  have sa: "submit_assignment db tk shares cost is_put now
      = fst (create_trade db2 (upper tk) ASSIGNMENT (Some cost) 0 (shares div 100) now)"
    using assms g unfolding submit_assignment_def db2_def Let_def by simp
  obtain db3 q where g3: "get_or_create_position db2 (upper tk) = (db3, q)"
    by (cases "get_or_create_position db2 (upper tk)")
  note t3 = get_or_create_position_found(2)[OF g3]
  show ?thesis
    unfolding sa create_trade_def Let_def g3 by (simp add: t3 t2)
qed

text \<open>
  Claim C10. A trade whose type is not CC or CSP contributes to no premium aggregate:
  with or without it, anywhere in the ledger, the premium summary (week, month, ytd,
  yearly, projected, and the week number and first trade date with them) and the top
  performers of every period and limit are the same. The record of type ASSIGNMENT with
  premium 0 that \<^verbatim>\<open>_submit_assignment\<close> appends is such a trade.
\<close>

theorem non_premium_trades_frame:
  assumes "trade_type t \<in> {ASSIGNMENT, CLOSE, ROLL, BUY, SELL}"
  shows "get_premium_summary (xs @ t # ys) today now = get_premium_summary (xs @ ys) today now
    \<and> get_top_performers arrange (xs @ t # ys) period limit now
        = get_top_performers arrange (xs @ ys) period limit now
    \<and> get_premium_summary (trades (submit_assignment db tk shares cost is_put opened)) today now
        = get_premium_summary (trades db) today now
    \<and> get_top_performers arrange (trades (submit_assignment db tk shares cost is_put opened))
          period limit now
        = get_top_performers arrange (trades db) period limit now"
proof -
  have n: "\<not> is_cc_csp t" using assms by (auto simp: is_cc_csp_def)
  have "get_premium_summary (trades (submit_assignment db tk shares cost is_put opened)) today now
        = get_premium_summary (trades db) today now
    \<and> get_top_performers arrange (trades (submit_assignment db tk shares cost is_put opened))
          period limit now
        = get_top_performers arrange (trades db) period limit now"
  proof (cases "upper tk = []")
    case True
    then show ?thesis by (simp add: submit_assignment_def)
  next
    case False
    from submit_assignment_trades[OF False, of db shares cost is_put opened] obtain tr
      where tr: "trades (submit_assignment db tk shares cost is_put opened) = trades db @ [tr]"
        "trade_type tr = ASSIGNMENT" by blast
    have "\<not> is_cc_csp tr" using tr(2) by (simp add: is_cc_csp_def)
    from premium_summary_frame[OF this, of "trades db" "[]"]
      top_performers_frame[OF this, where xs = "trades db" and ys = "[]"]
    show ?thesis unfolding tr(1) by simp
  qed
  then show ?thesis
    using premium_summary_frame[OF n] top_performers_frame[OF n] by blast
qed

theorem non_premium_trades_frame_witness:
  "trade_type (demo_ledger ! 4) \<in> {ASSIGNMENT, CLOSE, ROLL, BUY, SELL}
   \<and> get_premium_summary demo_ledger \<lparr>year = 2026, month = 1, day = 15\<rparr>
        \<lparr>year = 2026, month = 1, day = 15\<rparr>
      = get_premium_summary (take 4 demo_ledger) \<lparr>year = 2026, month = 1, day = 15\<rparr>
        \<lparr>year = 2026, month = 1, day = 15\<rparr>
   \<and> get_top_performers rev demo_ledger ''mtd'' 5 \<lparr>year = 2026, month = 1, day = 15\<rparr>
      = get_top_performers rev (take 4 demo_ledger) ''mtd'' 5
          \<lparr>year = 2026, month = 1, day = 15\<rparr>"
proof -
  have h: "trade_type (demo_ledger ! 4) \<in> {ASSIGNMENT, CLOSE, ROLL, BUY, SELL}"
    by (simp add: demo_ledger_def)
  have e: "demo_ledger = take 4 demo_ledger @ demo_ledger ! 4 # []" "take 4 demo_ledger @ [] = take 4 demo_ledger"
    by (simp_all add: demo_ledger_def)
  from non_premium_trades_frame[OF h, where xs = "take 4 demo_ledger" and ys = "[]"
      and today = "\<lparr>year = 2026, month = 1, day = 15\<rparr>"
      and now = "\<lparr>year = 2026, month = 1, day = 15\<rparr>" and period = "''mtd''" and limit = 5
      and arrange = rev]
  show ?thesis using h unfolding e(2) e(1)[symmetric] by blast
qed

section \<open>Top performers\<close>

lemma top_performers_rows:
  assumes "valid_ledger ledger" "valid_date now"
  shows "filter (\<lambda>t. counted t \<and>
            (if period = ''mtd''
             then (\<lambda>t. strftime_Ym (opened_at t) = strftime_Ym now)
             else (\<lambda>t. strftime_Y (opened_at t) = strftime_Y now)) t) ledger
       = filter (\<lambda>t. counted t \<and> in_period period now t) ledger"
proof (rule filter_cong[OF refl])
  fix t assume "t \<in> set ledger"
  then have v: "valid_date (opened_at t)" using assms(1) by (simp add: valid_ledger_def list_all_iff)
  show "(counted t \<and> (if period = ''mtd''
             then (\<lambda>t. strftime_Ym (opened_at t) = strftime_Ym now)
             else (\<lambda>t. strftime_Y (opened_at t) = strftime_Y now)) t)
      = (counted t \<and> in_period period now t)"
    by (simp add: in_period_def strftime_Ym_same_iff[OF v assms(2)]
        strftime_Y_same_iff[OF v assms(2)])
qed

lemma top_performers_eq:
  assumes "valid_ledger ledger" "valid_date now" "0 \<le> limit"
  shows "get_top_performers arrange ledger period limit now =
     take (nat limit) (sort_key (\<lambda>x. - snd x)
       (arrange (map (\<lambda>k. (k, period_total ledger period now k))
                     (sort (period_tickers ledger period now)))))"
proof -
  define rows where "rows = filter (\<lambda>t. counted t \<and> in_period period now t) ledger"
  have c: "(\<lambda>t. counted t \<and> in_period period now t)
      = (\<lambda>t. (trade_type t = CC \<or> trade_type t = CSP) \<and> status t \<noteq> OPEN \<and> in_period period now t)"
    by (simp add: fun_eq_iff counted_iff)
  have ks: "remdups (map ticker rows) = period_tickers ledger period now"
    by (simp only: rows_def c period_tickers_def)
  have tot: "sum_premium (filter (\<lambda>t. ticker t = k) rows) = period_total ledger period now k" for k
  proof -
    have "filter (\<lambda>t. ticker t = k) rows
        = filter (\<lambda>t. (trade_type t = CC \<or> trade_type t = CSP) \<and> status t \<noteq> OPEN
                    \<and> in_period period now t \<and> ticker t = k) ledger"
      unfolding rows_def filter_filter
      by (rule filter_cong[OF refl]) (auto simp: counted_iff)
    then show ?thesis
      by (simp add: sum_premium_def period_total_def realized_def[abs_def])
  qed
  have k: "(\<lambda>(k, total). - total) = (\<lambda>x :: string \<times> real. - snd x)" by (simp add: fun_eq_iff)
  show ?thesis
    unfolding get_top_performers_def Let_def top_performers_rows[OF assms(1,2)]
      rows_def[symmetric] tot ks k sql_limit_def
    using assms(3) by simp
qed

lemma sorted_desc_sort_key:
  fixes g :: "'a \<Rightarrow> real"
  shows "sorted_wrt (\<lambda>x y. g x \<ge> g y) (sort_key (\<lambda>x. - g x) xs)"
proof -
  have "sorted (map (\<lambda>x. - g x) (sort_key (\<lambda>x. - g x) xs))" by (rule sorted_sort_key)
  then show ?thesis by (simp add: sorted_map)
qed

lemma reorder_distinct:
  assumes "distinct xs" "set ys = set xs" "length ys = length xs"
  shows "distinct ys"
proof -
  have "card (set ys) = length ys"
    using distinct_card[OF assms(1)] assms(2,3) by simp
  then show ?thesis by (rule card_distinct)
qed

text \<open>
  Claim C7. For a limit \<open>L \<ge> 0\<close>, whatever order SQLite gives to equal totals,
  \<^verbatim>\<open>get_top_performers\<close> returns \<open>L\<close> entries, or one for every ticker of the period when
  there are fewer; no ticker twice; in non-increasing order of their totals. Each entry
  pairs a ticker that has a trade of type CC or CSP with status other than OPEN in the
  period with the sum of \<open>premium * quantity * 100\<close> over those trades, and every such
  ticker that is left out has a total no greater than any total returned. The period is
  the calendar month of the current date for \<^verbatim>\<open>'mtd'\<close> and its calendar year otherwise.
\<close>

theorem top_performers_ranked:
  assumes "valid_ledger ledger" and "valid_date now" and "0 \<le> limit"
    and "\<forall>xs. set (arrange xs) = set xs \<and> length (arrange xs) = length xs"
  shows "length (get_top_performers arrange ledger period limit now)
           = min (nat limit) (length (period_tickers ledger period now))
    \<and> sorted_wrt (\<lambda>x y. snd x \<ge> snd y) (get_top_performers arrange ledger period limit now)
    \<and> distinct (map fst (get_top_performers arrange ledger period limit now))
    \<and> (\<forall>(k, total) \<in> set (get_top_performers arrange ledger period limit now).
          k \<in> set (period_tickers ledger period now)
          \<and> total = period_total ledger period now k)
    \<and> (\<forall>k \<in> set (period_tickers ledger period now).
          k \<notin> fst ` set (get_top_performers arrange ledger period limit now) \<longrightarrow>
          (\<forall>(k', total') \<in> set (get_top_performers arrange ledger period limit now).
             period_total ledger period now k \<le> total'))"
proof -
  define ks where "ks = sort (period_tickers ledger period now)"
  define groups where "groups = map (\<lambda>k. (k, period_total ledger period now k)) ks"
  define arranged where "arranged = arrange groups"
  define ordered where "ordered = sort_key (\<lambda>x. - snd x) arranged"
  define n where "n = nat limit"
  have r: "get_top_performers arrange ledger period limit now = take n ordered"
    unfolding top_performers_eq[OF assms(1-3)] ordered_def arranged_def groups_def ks_def n_def ..
  have dk: "distinct ks" and sk: "set ks = set (period_tickers ledger period now)"
    and lk: "length ks = length (period_tickers ledger period now)"
    by (simp_all add: ks_def period_tickers_def)
  have fg: "map fst groups = ks" by (simp add: groups_def comp_def)
  have dg: "distinct groups" using dk fg by (metis distinct_map)
  have sa: "set arranged = set groups" and la: "length arranged = length groups"
    using assms(4) by (simp_all add: arranged_def)
  have da: "distinct arranged" by (rule reorder_distinct[OF dg sa la])
  have so: "set ordered = set groups" and lo: "length ordered = length ks"
    and do: "distinct ordered"
    using sa la da by (simp_all add: ordered_def groups_def)
  have inj: "inj_on fst (set groups)" using dk fg by (metis distinct_map)
  have srt: "sorted_wrt (\<lambda>x y. snd x \<ge> snd y) ordered"
    unfolding ordered_def by (rule sorted_desc_sort_key)
  have 1: "length (take n ordered) = min n (length (period_tickers ledger period now))"
    by (simp add: lo lk min.commute)
  have 2: "sorted_wrt (\<lambda>x y. snd x \<ge> snd y) (take n ordered)"
    using srt by (rule sorted_wrt_take)
  have "distinct (map fst ordered)"
    using do inj so by (simp add: distinct_map)
  then have 3: "distinct (map fst (take n ordered))"
    by (simp add: take_map[symmetric] distinct_take)
  have 4: "k \<in> set (period_tickers ledger period now) \<and> total = period_total ledger period now k"
    if "(k, total) \<in> set (take n ordered)" for k total
  proof -
    from that have "(k, total) \<in> set ordered" by (rule in_set_takeD)
    then have "(k, total) \<in> set groups" by (simp only: so)
    then show ?thesis by (auto simp: groups_def sk)
  qed
  have 5: "period_total ledger period now k \<le> total'"
    if k: "k \<in> set (period_tickers ledger period now)"
      and out: "k \<notin> fst ` set (take n ordered)"
      and in': "(k', total') \<in> set (take n ordered)" for k k' total'
  proof -
    have "(k, period_total ledger period now k) \<in> set groups"
      using k by (simp add: groups_def sk)
    then have "(k, period_total ledger period now k) \<in> set ordered"
      by (simp only: so)
    moreover have "set ordered = set (take n ordered) \<union> set (drop n ordered)"
      by (metis append_take_drop_id set_append)
    moreover have "(k, period_total ledger period now k) \<notin> set (take n ordered)"
      using out by force
    ultimately have d: "(k, period_total ledger period now k) \<in> set (drop n ordered)" by blast
    have "sorted_wrt (\<lambda>x y. snd x \<ge> snd y) (take n ordered @ drop n ordered)"
      using srt by simp
    then have "\<forall>x\<in>set (take n ordered). \<forall>y\<in>set (drop n ordered). snd x \<ge> snd y"
      by (simp only: sorted_wrt_append) blast
    with in' d show ?thesis by force
  qed
  show ?thesis
    unfolding r n_def[symmetric] using 1 2 3 4 5 by blast
qed

lemma demo_period:
  "period_tickers demo_ledger ''mtd'' \<lparr>year = 2026, month = 1, day = 15\<rparr> = [''FLY'', ''RDW'', ''ACB'']"
  "period_total demo_ledger ''mtd'' \<lparr>year = 2026, month = 1, day = 15\<rparr> ''FLY'' = 98"
  "period_total demo_ledger ''mtd'' \<lparr>year = 2026, month = 1, day = 15\<rparr> ''RDW'' = 80"
  "period_total demo_ledger ''mtd'' \<lparr>year = 2026, month = 1, day = 15\<rparr> ''ACB'' = 40"
  by (simp_all add: period_tickers_def period_total_def demo_ledger_def in_period_def)

lemma demo_top_performers:
  "get_top_performers rev demo_ledger ''mtd'' 2 \<lparr>year = 2026, month = 1, day = 15\<rparr>
     = [(''FLY'', 98), (''RDW'', 80)]"
proof -
  have "(0::int) \<le> 2" by simp
  from top_performers_eq[OF demo_ledger_valid demo_today_valid(1) this]
  show ?thesis by (simp add: demo_period)
qed

text \<open>
  With equal totals and a limit, which ticker is returned depends on the order SQLite
  takes; the statement of claim C7 holds of either answer.
\<close>

lemma tie_order_example:
  "get_top_performers id tie_ledger ''mtd'' 1 \<lparr>year = 2026, month = 1, day = 15\<rparr> = [(''AAA'', 100)]"
  "get_top_performers rev tie_ledger ''mtd'' 1 \<lparr>year = 2026, month = 1, day = 15\<rparr> = [(''CCC'', 100)]"
proof -
  have v: "valid_ledger tie_ledger" by code_simp
  have l: "(0::int) \<le> 1" by simp
  have p: "period_tickers tie_ledger ''mtd'' \<lparr>year = 2026, month = 1, day = 15\<rparr> = [''AAA'', ''CCC'']"
    "period_total tie_ledger ''mtd'' \<lparr>year = 2026, month = 1, day = 15\<rparr> ''AAA'' = 100"
    "period_total tie_ledger ''mtd'' \<lparr>year = 2026, month = 1, day = 15\<rparr> ''CCC'' = 100"
    by (simp_all add: period_tickers_def period_total_def tie_ledger_def in_period_def)
  show "get_top_performers id tie_ledger ''mtd'' 1 \<lparr>year = 2026, month = 1, day = 15\<rparr> = [(''AAA'', 100)]"
    using top_performers_eq[OF v demo_today_valid(1) l, of id "''mtd''"] by (simp add: p)
  show "get_top_performers rev tie_ledger ''mtd'' 1 \<lparr>year = 2026, month = 1, day = 15\<rparr> = [(''CCC'', 100)]"
    using top_performers_eq[OF v demo_today_valid(1) l, of rev "''mtd''"] by (simp add: p)
qed

theorem top_performers_ranked_witness:
  "valid_ledger demo_ledger \<and> valid_date \<lparr>year = 2026, month = 1, day = 15\<rparr> \<and> (0::int) \<le> 2
   \<and> (\<forall>xs :: (string \<times> real) list. set (rev xs) = set xs \<and> length (rev xs) = length xs)
   \<and> get_top_performers rev demo_ledger ''mtd'' 2 \<lparr>year = 2026, month = 1, day = 15\<rparr>
        = [(''FLY'', 98), (''RDW'', 80)]
   \<and> length (get_top_performers rev demo_ledger ''mtd'' 2 \<lparr>year = 2026, month = 1, day = 15\<rparr>)
        = min (nat 2) (length (period_tickers demo_ledger ''mtd''
                                 \<lparr>year = 2026, month = 1, day = 15\<rparr>))
   \<and> period_tickers demo_ledger ''mtd'' \<lparr>year = 2026, month = 1, day = 15\<rparr>
        = [''FLY'', ''RDW'', ''ACB'']
   \<and> list_all (\<lambda>(k', total').
          period_total demo_ledger ''mtd'' \<lparr>year = 2026, month = 1, day = 15\<rparr> ''ACB'' \<le> total')
        (get_top_performers rev demo_ledger ''mtd'' 2 \<lparr>year = 2026, month = 1, day = 15\<rparr>)"
proof -
  have l: "(0::int) \<le> 2" by simp
  have p: "\<forall>xs :: (string \<times> real) list. set (rev xs) = set xs \<and> length (rev xs) = length xs"
    by simp
  note t = top_performers_ranked[OF demo_ledger_valid demo_today_valid(1) l p, of "''mtd''"]
  have c1: "length (get_top_performers rev demo_ledger ''mtd'' 2 \<lparr>year = 2026, month = 1, day = 15\<rparr>)
        = min (nat 2) (length (period_tickers demo_ledger ''mtd''
                                 \<lparr>year = 2026, month = 1, day = 15\<rparr>))"
    using t by blast
  have "''ACB'' \<in> set (period_tickers demo_ledger ''mtd'' \<lparr>year = 2026, month = 1, day = 15\<rparr>)"
    by (simp add: demo_period)
  moreover have "''ACB'' \<notin> fst ` set (get_top_performers rev demo_ledger ''mtd'' 2
      \<lparr>year = 2026, month = 1, day = 15\<rparr>)"
    by (simp add: demo_top_performers)
  ultimately have c2: "list_all (\<lambda>(k', total').
          period_total demo_ledger ''mtd'' \<lparr>year = 2026, month = 1, day = 15\<rparr> ''ACB'' \<le> total')
        (get_top_performers rev demo_ledger ''mtd'' 2 \<lparr>year = 2026, month = 1, day = 15\<rparr>)"
    unfolding list_all_iff using t by blast
  show ?thesis
    by (intro conjI demo_ledger_valid demo_today_valid(1) l p demo_top_performers c1
        demo_period(1) c2)
qed

end
